theory Spec2Isabelle
  imports Main
begin

text \<open>
  The repository resolver of \<open>claude-fix\<close>: \<open>normalizeRepoUrl\<close>, the cache
  (\<open>cacheLookup\<close>, \<open>cacheStore\<close>), the directory scan (\<open>scanForRepo\<close>, \<open>walkDir\<close>) and the entry
  point \<open>resolveRepo\<close>. Every function of the module is a function here, with the same name
  and the same order of checks. A function that touches the outside takes the world and,
  when it changes the cache file or prints, returns the new world together with its
  result or with the exception that left it.
\<close>

section \<open>Strings\<close>

text \<open>
  A JavaScript string is a sequence of UTF-16 code units. A character here is a code unit
  below \<open>U+0100\<close>, that is \<^typ>\<open>char\<close> read as Latin-1, and a string is a \<^typ>\<open>string\<close>; a
  string with a code unit from \<open>U+0100\<close> on is not in the type. On these characters the
  white space of \<open>trim\<close> and of the class \<open>\s\<close> is TAB, LF, VT, FF, CR, SPACE and the
  no-break space \<open>U+00A0\<close>; the line terminators that \<open>.\<close> refuses in a regular
  expression are LF and CR; \<open>toLowerCase\<close> maps \<open>A\<close>..\<open>Z\<close> and the letters \<open>U+00C0\<close>..\<open>U+00DE\<close>
  (all but the multiplication sign \<open>U+00D7\<close>) to the character 32 places further, and
  leaves every other character alone.
\<close>

definition isWhiteSpace :: "char \<Rightarrow> bool" where
  "isWhiteSpace c = (c = CHR 0x09 \<or> c = CHR 0x0A \<or> c = CHR 0x0B \<or> c = CHR 0x0C
                     \<or> c = CHR 0x0D \<or> c = CHR '' '' \<or> c = CHR 0xA0)"

definition isLineTerminator :: "char \<Rightarrow> bool" where
  "isLineTerminator c = (c = CHR 0x0A \<or> c = CHR 0x0D)"

definition toLowerChar :: "char \<Rightarrow> char" where
  "toLowerChar c =
     (let n = (of_char c :: nat)
      in if 65 \<le> n \<and> n \<le> 90 then char_of (n + 32)
         else if 192 \<le> n \<and> n \<le> 222 \<and> n \<noteq> 215 then char_of (n + 32)
         else c)"

definition toLowerCase :: "string \<Rightarrow> string" where
  "toLowerCase s = map toLowerChar s"

text \<open>\<open>String.prototype.trim\<close>: white space is removed at both ends.\<close>

definition trim :: "string \<Rightarrow> string" where
  "trim s = rev (dropWhile isWhiteSpace (rev (dropWhile isWhiteSpace s)))"

definition startsWith :: "string \<Rightarrow> string \<Rightarrow> bool" where
  "startsWith p s = (take (length p) s = p)"

definition endsWith :: "string \<Rightarrow> string \<Rightarrow> bool" where
  "endsWith p s = (length p \<le> length s \<and> drop (length s - length p) s = p)"

section \<open>URL normalization\<close>

text \<open>
  \<open>u.match(/^git@ssh\.dev\.azure\.com:v3\/(.+)/)\<close>: the literal prefix, then the group, the
  longest run of characters that are not line terminators, which must not be empty. The
  result is the group.
\<close>

definition azureMatch :: "string \<Rightarrow> string option" where
  "azureMatch u =
     (if startsWith ''git@ssh.dev.azure.com:v3/'' u
      then (let g = takeWhile (\<lambda>c. \<not> isLineTerminator c) (drop 25 u)
            in if g = [] then None else Some g)
      else None)"

text \<open>
  \<open>u.match(/^git@([^:]+):(.+)/)\<close>: after \<open>git@\<close> the first group is the non-empty run of
  characters up to the first colon (a shorter run would have to be followed by a colon,
  and is followed by a character of the run); the second group is the non-empty run of
  characters after that colon that are not line terminators.
\<close>

definition sshMatch :: "string \<Rightarrow> (string \<times> string) option" where
  "sshMatch u =
     (if startsWith ''git@'' u
      then (let r = drop 4 u;
                h = takeWhile (\<lambda>c. c \<noteq> CHR '':'') r;
                t = dropWhile (\<lambda>c. c \<noteq> CHR '':'') r
            in if h = [] then None
               else (case t of
                       [] \<Rightarrow> None
                     | _ # t' \<Rightarrow>
                         (let g = takeWhile (\<lambda>c. \<not> isLineTerminator c) t'
                          in if g = [] then None else Some (h, g))))
      else None)"

text \<open>\<open>u.replace(/^https?:\/\//, '')\<close>\<close>

definition stripScheme :: "string \<Rightarrow> string" where
  "stripScheme u =
     (if startsWith ''http://'' u then drop 7 u
      else if startsWith ''https://'' u then drop 8 u
      else u)"

text \<open>\<open>u.replace(/\.git$/, '')\<close>: one suffix, at the end of the input.\<close>

definition stripGit :: "string \<Rightarrow> string" where
  "stripGit u = (if endsWith ''.git'' u then take (length u - 4) u else u)"

text \<open>\<open>u.replace(/\/+$/, '')\<close>: the whole run of slashes at the end.\<close>

definition stripSlashes :: "string \<Rightarrow> string" where
  "stripSlashes u = rev (dropWhile (\<lambda>c. c = CHR ''/'') (rev u))"

text \<open>
  \<open>normalizeRepoUrl\<close>. The argument is a string, so the only falsy argument is the empty
  string; \<open>null\<close> is \<^const>\<open>None\<close>.
\<close>

definition normalizeRepoUrl :: "string \<Rightarrow> string option" where
  "normalizeRepoUrl url =
     (if url = [] then None
      else (let u = trim url in
        case azureMatch u of
          Some g \<Rightarrow> Some (stripGit (toLowerCase (''dev.azure.com/'' @ g)))
        | None \<Rightarrow>
            (case sshMatch u of
               Some (h, g) \<Rightarrow> Some (stripGit (toLowerCase (h @ ''/'' @ g)))
             | None \<Rightarrow> Some (toLowerCase (stripSlashes (stripGit (stripScheme u)))))))"

text \<open>
  \<open>s.split(c)\<close> for a one-character separator: the pieces between the occurrences of
  \<open>c\<close>; there is always at least one piece.
\<close>

fun splitOn :: "char \<Rightarrow> string \<Rightarrow> string list" where
  "splitOn c [] = [[]]"
| "splitOn c (x # xs) =
     (if x = c then [] # splitOn c xs
      else (case splitOn c xs of [] \<Rightarrow> [[x]] | f # fs \<Rightarrow> (x # f) # fs))"

text \<open>
  \<open>extractRepoName\<close>: \<open>null\<close> for a falsy argument, else the last piece of
  \<open>normalizedUrl.split('/')\<close>.
\<close>

definition extractRepoName :: "string \<Rightarrow> string option" where
  "extractRepoName normalizedUrl =
     (if normalizedUrl = [] then None else Some (last (splitOn (CHR ''/'') normalizedUrl)))"


section \<open>Paths\<close>

text \<open>
  \<open>path.join\<close> of Node's \<open>path\<close> module (POSIX), for two arguments: the non-empty arguments
  are joined by a slash and the result is normalised. Normalising drops empty segments
  and \<open>.\<close>, lets \<open>..\<close> remove the segment before it (a \<open>..\<close> that has nothing to remove is
  kept in a relative path and dropped in an absolute one), and keeps a trailing slash;
  the empty path becomes \<open>.\<close>.
\<close>

definition normalizeString :: "bool \<Rightarrow> string list \<Rightarrow> string list" where
  "normalizeString allowAboveRoot segments =
     foldl (\<lambda>res seg.
              if seg = [] \<or> seg = ''.'' then res
              else if seg = ''..''
                then (if res \<noteq> [] \<and> last res \<noteq> ''..'' then butlast res
                      else if allowAboveRoot then res @ [''..''] else res)
              else res @ [seg])
           [] segments"

fun joinSegments :: "string list \<Rightarrow> string" where
  "joinSegments [] = []"
| "joinSegments [s] = s"
| "joinSegments (s # t # ss) = s @ CHR ''/'' # joinSegments (t # ss)"

definition posixNormalize :: "string \<Rightarrow> string" where
  "posixNormalize p =
     (if p = [] then ''.''
      else (let isAbsolute = (hd p = CHR ''/'');
                trailingSeparator = (last p = CHR ''/'');
                body = joinSegments (normalizeString (\<not> isAbsolute) (splitOn (CHR ''/'') p))
            in if body = []
               then (if isAbsolute then ''/'' else if trailingSeparator then ''./'' else ''.'')
               else (if isAbsolute then ''/'' else [])
                    @ body @ (if trailingSeparator then ''/'' else [])))"

definition pathJoin :: "string \<Rightarrow> string \<Rightarrow> string" where
  "pathJoin dir name =
     posixNormalize (if dir = [] then name else if name = [] then dir else dir @ ''/'' @ name)"

section \<open>The environment\<close>

text \<open>
  The resolver reads the file system, runs a shell command, reads and writes two JSON
  files, reads the clock and prints to the console. All of that is the \<open>world\<close>, passed
  explicitly.

  \<^item> \<open>pathExists\<close> is the file system's answer to \<open>fs.existsSync\<close>, \<open>readdir\<close> the answer to
    \<open>fs.readdirSync(dir, {withFileTypes: true})\<close>: the entries with their
    \<open>isDirectory()\<close> flag, or \<^const>\<open>None\<close> when the call throws.
  \<^item> \<open>execSync\<close> is the answer to a command line: what the command prints on its standard
    output, or \<^const>\<open>None\<close> when \<open>execSync\<close> throws (the shell or the command fails, or
    the time is up).
  \<^item> A JSON file is absent, unreadable or unparsable (\<open>Garbled\<close>), holds the JSON value
    \<open>null\<close>, or holds an object. The object of the cache file maps identifiers to
    entries with a path and a time, which is what \<open>saveCache\<close> writes; the object of the
    configuration holds the two settings the resolver reads, each one unset (or falsy) or
    set: the roots to an array of strings, the depth to an integer. Files that hold
    another JSON value (an array, a number, an object with members of other types)
    are not in the type.
  \<^item> \<open>cacheWritable\<close> tells whether \<open>fs.writeFileSync\<close> on the cache file succeeds; when it
    does not, the call throws, and nothing in the resolver catches that.
  \<^item> \<open>console\<close> collects the lines of \<open>console.log\<close> in order.
  \<^item> \<open>HOME\<close> is \<open>process.env.HOME\<close>; the module does not load without it.
\<close>

record cache_entry =
  path :: string
  lastUsed :: string

type_synonym cache = "string \<rightharpoonup> cache_entry"

datatype 'a json_file = Absent | Garbled | Null | Content 'a

record config =
  GIT_SEARCH_PATHS :: "string list option"
  GIT_SEARCH_MAX_DEPTH :: "int option"

datatype event =
    InvalidRepoUrl string
  | Resolving string
  | CacheStalePathGone string
  | CacheStaleRemoteMismatch string
  | CacheHit string string
  | Scanning "string list" int
  | Found string
  | NotFound string

text \<open>
  The exceptions that leave the resolver: the one of \<open>fs.writeFileSync\<close>, and the
  \<open>TypeError\<close> of a property access on \<open>null\<close>.
\<close>

datatype error = WriteFailed | TypeError

record world =
  HOME :: string
  pathExists :: "string \<Rightarrow> bool"
  readdir :: "string \<Rightarrow> (string \<times> bool) list option"
  execSync :: "string \<Rightarrow> string option"
  cacheFile :: "cache json_file"
  cacheWritable :: bool
  configFile :: "config json_file"
  clock :: string
  console :: "event list"

definition consoleLog :: "event \<Rightarrow> world \<Rightarrow> world" where
  "consoleLog e w = w\<lparr>console := console w @ [e]\<rparr>"

text \<open>\<open>fs.existsSync\<close>; the empty path never exists.\<close>

definition existsSync :: "world \<Rightarrow> string \<Rightarrow> bool" where
  "existsSync w p = (p \<noteq> [] \<and> pathExists w p)"

text \<open>A string or \<open>null\<close> in a condition: true for a non-empty string.\<close>

definition truthy :: "string option \<Rightarrow> bool" where
  "truthy r = (case r of None \<Rightarrow> False | Some s \<Rightarrow> s \<noteq> [])"

definition SKIP_DIRS :: "string set" where
  "SKIP_DIRS = {''.git'', ''node_modules'', ''dist'', ''.bare'', ''__pycache__'',
                ''vendor'', ''.venv'', ''build'', ''.cache'', ''.next'', ''.turbo''}"

text \<open>
  The property names that every object inherits from \<open>Object.prototype\<close>. Reading one of
  them from an object that has no own property of that name gives a function (for
  \<open>__proto__\<close>, the prototype object), which is truthy and has no \<open>path\<close>; assigning to
  \<open>__proto__\<close> in that situation sets the prototype and creates no property.
\<close>

definition objectPrototypeKeys :: "string set" where
  "objectPrototypeKeys =
     {''__proto__'', ''constructor'', ''hasOwnProperty'', ''isPrototypeOf'',
      ''propertyIsEnumerable'', ''toLocaleString'', ''toString'', ''valueOf'',
      ''__defineGetter__'', ''__defineSetter__'', ''__lookupGetter__'', ''__lookupSetter__''}"

section \<open>Git helpers\<close>

text \<open>
  \<open>line.split(/\s+/)\<close>: the pieces between the maximal runs of white space; a line that
  starts or ends with white space has an empty first or last piece.
\<close>

fun splitWhiteSpace :: "string \<Rightarrow> string list" where
  "splitWhiteSpace [] = [[]]"
| "splitWhiteSpace (x # xs) =
     (if isWhiteSpace x
      then (if xs \<noteq> [] \<and> isWhiteSpace (hd xs) then splitWhiteSpace xs
            else [] # splitWhiteSpace xs)
      else (case splitWhiteSpace xs of [] \<Rightarrow> [[x]] | f # fs \<Rightarrow> (x # f) # fs))"

text \<open>
  The command line of \<open>getRepoRemotes\<close>: the directory between two apostrophes, as the
  template string has it.
\<close>

definition remoteCommand :: "string \<Rightarrow> string" where
  "remoteCommand dirPath = ''git -C '' @ [CHR 0x27] @ dirPath @ [CHR 0x27] @ '' remote -v''"

text \<open>
  \<open>getRepoRemotes\<close>: the second field of every output line, when there is one and it is
  not empty, collected in a \<open>Set\<close> (first occurrence kept); the empty list when the command
  fails.
\<close>

definition getRepoRemotes :: "world \<Rightarrow> string \<Rightarrow> string list" where
  "getRepoRemotes w dirPath =
     (case execSync w (remoteCommand dirPath) of
        None \<Rightarrow> []
      | Some out \<Rightarrow>
          fold (\<lambda>line urls.
                  (case splitWhiteSpace line of
                     _ # url # _ \<Rightarrow> if url \<noteq> [] \<and> url \<notin> set urls then urls @ [url] else urls
                   | _ \<Rightarrow> urls))
               (splitOn (CHR 0x0A) out) [])"

section \<open>Cache\<close>

text \<open>
  \<open>loadCache\<close>: the parsed file, or the empty object when the file is absent or does not
  parse. \<^const>\<open>None\<close> is the value \<open>null\<close>, which parses.
\<close>

definition loadCache :: "world \<Rightarrow> cache option" where
  "loadCache w =
     (case cacheFile w of Content c \<Rightarrow> Some c | Null \<Rightarrow> None | _ \<Rightarrow> Some Map.empty)"

definition saveCache :: "cache \<Rightarrow> world \<Rightarrow> (error + unit) \<times> world" where
  "saveCache c w =
     (if cacheWritable w then (Inr (), w\<lparr>cacheFile := Content c\<rparr>) else (Inl WriteFailed, w))"

text \<open>
  \<open>cacheLookup\<close>. \<open>cache[normalizedUrl]\<close> raises on \<open>null\<close>. On an object it is the own
  property, or, for a name of \<open>Object.prototype\<close> without own property, an inherited
  value: that one is truthy, its \<open>path\<close> is \<open>undefined\<close>, which does not exist, so it is
  treated as a stale entry; the \<open>delete\<close> changes nothing and the object is written back.
\<close>

definition cacheLookup :: "string \<Rightarrow> world \<Rightarrow> (error + string option) \<times> world" where
  "cacheLookup normalizedUrl w =
     (case loadCache w of
        None \<Rightarrow> (Inl TypeError, w)
      | Some c \<Rightarrow>
         (case c normalizedUrl of
            None \<Rightarrow>
              if normalizedUrl \<in> objectPrototypeKeys then
                (case saveCache c w of
                   (Inl e, w') \<Rightarrow> (Inl e, w')
                 | (Inr _, w') \<Rightarrow> (Inr None, consoleLog (CacheStalePathGone ''undefined'') w'))
              else (Inr None, w)
          | Some entry \<Rightarrow>
              if \<not> existsSync w (path entry) then
                (case saveCache (c(normalizedUrl := None)) w of
                   (Inl e, w') \<Rightarrow> (Inl e, w')
                 | (Inr _, w') \<Rightarrow> (Inr None, consoleLog (CacheStalePathGone (path entry)) w'))
              else if Some normalizedUrl
                      \<notin> set (map normalizeRepoUrl (getRepoRemotes w (path entry))) then
                (case saveCache (c(normalizedUrl := None)) w of
                   (Inl e, w') \<Rightarrow> (Inl e, w')
                 | (Inr _, w') \<Rightarrow>
                     (Inr None, consoleLog (CacheStaleRemoteMismatch (path entry)) w'))
              else
                (case saveCache (c(normalizedUrl \<mapsto> entry\<lparr>lastUsed := clock w\<rparr>)) w of
                   (Inl e, w') \<Rightarrow> (Inl e, w')
                 | (Inr _, w') \<Rightarrow>
                     (Inr (Some (path entry)),
                      consoleLog (CacheHit normalizedUrl (path entry)) w'))))"

text \<open>
  \<open>cacheStore\<close>. The assignment raises on \<open>null\<close>; on an object it sets the own property,
  except for the key \<open>__proto__\<close> without own property, where it creates none. The
  object is written in either case.
\<close>

definition cacheStore :: "string \<Rightarrow> string \<Rightarrow> world \<Rightarrow> (error + unit) \<times> world" where
  "cacheStore normalizedUrl resolvedPath w =
     (case loadCache w of
        None \<Rightarrow> (Inl TypeError, w)
      | Some c \<Rightarrow>
          saveCache
            (if normalizedUrl = ''__proto__'' \<and> c normalizedUrl = None then c
             else c(normalizedUrl \<mapsto> \<lparr>path = resolvedPath, lastUsed = clock w\<rparr>))
            w)"

section \<open>Filesystem scan\<close>

text \<open>The test that \<open>walkDir\<close> applies to a child directory \<open>name\<close> of \<open>dir\<close>.\<close>

definition isMatch :: "world \<Rightarrow> string \<Rightarrow> string \<Rightarrow> string \<Rightarrow> string \<Rightarrow> bool" where
  "isMatch w repoName normalizedUrl dir name =
     (toLowerCase name = repoName
      \<and> existsSync w (pathJoin (pathJoin dir name) ''.git'')
      \<and> Some normalizedUrl
          \<in> set (map normalizeRepoUrl (getRepoRemotes w (pathJoin dir name))))"

text \<open>
  \<open>walkDir\<close>, and its loop over the entries as \<open>walkEntries\<close>. The recursive call is made for
  every child that is not returned; it gives up at once when its depth exceeds
  \<open>maxDepth\<close>.
\<close>

function walkDir :: "world \<Rightarrow> string \<Rightarrow> string \<Rightarrow> string \<Rightarrow> int \<Rightarrow> int \<Rightarrow> string option"
  and walkEntries ::
    "world \<Rightarrow> string \<Rightarrow> (string \<times> bool) list \<Rightarrow> string \<Rightarrow> string \<Rightarrow> int \<Rightarrow> int \<Rightarrow> string option"
where
  "walkDir w dir repoName normalizedUrl depth maxDepth =
     (if depth > maxDepth then None
      else (case readdir w dir of
              None \<Rightarrow> None
            | Some entries \<Rightarrow> walkEntries w dir entries repoName normalizedUrl depth maxDepth))"
| "walkEntries w dir [] repoName normalizedUrl depth maxDepth = None"
| "walkEntries w dir (entry # rest) repoName normalizedUrl depth maxDepth =
     (if \<not> snd entry then walkEntries w dir rest repoName normalizedUrl depth maxDepth
      else if fst entry \<in> SKIP_DIRS
        then walkEntries w dir rest repoName normalizedUrl depth maxDepth
      else if isMatch w repoName normalizedUrl dir (fst entry)
        then Some (pathJoin dir (fst entry))
      else if truthy (walkDir w (pathJoin dir (fst entry)) repoName normalizedUrl
                        (depth + 1) maxDepth)
        then walkDir w (pathJoin dir (fst entry)) repoName normalizedUrl (depth + 1) maxDepth
      else walkEntries w dir rest repoName normalizedUrl depth maxDepth)"
  by pat_completeness auto
termination
  by (relation "measures
        [\<lambda>x. case x of
                Inl (w, dir, repoName, normalizedUrl, depth, maxDepth) \<Rightarrow>
                  2 * nat (maxDepth - depth + 1)
              | Inr (w, dir, entries, repoName, normalizedUrl, depth, maxDepth) \<Rightarrow>
                  2 * nat (maxDepth - depth + 1) - 1,
         \<lambda>x. case x of
                Inl _ \<Rightarrow> 0
              | Inr (w, dir, entries, rest) \<Rightarrow> length entries]")
     auto

text \<open>\<open>raw.replace(/^~/, process.env.HOME)\<close>, for a \<open>HOME\<close> without \<open>$\<close>.\<close>

text \<open>
  \<open>raw.replace(/^~/, process.env.HOME)\<close>. In the replacement text \<open>$$\<close> stands for a
  dollar sign, \<open>$&\<close> for the match (the tilde), \<open>$`\<close> for the text before the match (empty)
  and \<open>$'\<close> for the text after it; the expression has no groups, so every other dollar
  sign stands for itself.
\<close>

fun expandReplacement :: "string \<Rightarrow> string \<Rightarrow> string" where
  "expandReplacement [] rest = []"
| "expandReplacement [c] rest = [c]"
| "expandReplacement (c # d # t) rest =
     (if c = CHR ''$'' \<and> d = CHR ''$'' then CHR ''$'' # expandReplacement t rest
      else if c = CHR ''$'' \<and> d = CHR ''&'' then CHR ''~'' # expandReplacement t rest
      else if c = CHR ''$'' \<and> d = CHR 0x60 then expandReplacement t rest
      else if c = CHR ''$'' \<and> d = CHR 0x27 then rest @ expandReplacement t rest
      else c # expandReplacement (d # t) rest)"

definition expandHome :: "world \<Rightarrow> string \<Rightarrow> string" where
  "expandHome w raw =
     (case raw of
        [] \<Rightarrow> []
      | x # xs \<Rightarrow> if x = CHR ''~'' then expandReplacement (HOME w) xs @ xs else raw)"

fun scanRoots :: "world \<Rightarrow> string \<Rightarrow> string \<Rightarrow> string list \<Rightarrow> int \<Rightarrow> string option" where
  "scanRoots w repoName normalizedUrl [] maxDepth = None"
| "scanRoots w repoName normalizedUrl (raw # rest) maxDepth =
     (if truthy (walkDir w (expandHome w raw) repoName normalizedUrl 0 maxDepth)
      then walkDir w (expandHome w raw) repoName normalizedUrl 0 maxDepth
      else scanRoots w repoName normalizedUrl rest maxDepth)"

definition scanForRepo :: "world \<Rightarrow> string \<Rightarrow> string list \<Rightarrow> int \<Rightarrow> string option" where
  "scanForRepo w normalizedUrl searchPaths maxDepth =
     (case extractRepoName normalizedUrl of
        None \<Rightarrow> None
      | Some repoName \<Rightarrow>
          if repoName = [] then None
          else scanRoots w repoName normalizedUrl searchPaths maxDepth)"


section \<open>Config and the entry point\<close>

text \<open>
  \<open>loadConfig\<close>: the parsed file, or the empty object when the file is absent or does not
  parse. \<^const>\<open>None\<close> is the value \<open>null\<close>, which parses.
\<close>

definition loadConfig :: "world \<Rightarrow> config option" where
  "loadConfig w =
     (case configFile w of
        Content c \<Rightarrow> Some c
      | Null \<Rightarrow> None
      | _ \<Rightarrow> Some \<lparr>GIT_SEARCH_PATHS = None, GIT_SEARCH_MAX_DEPTH = None\<rparr>)"

text \<open>
  \<open>config.GIT_SEARCH_PATHS || ['~/dd']\<close>: an array, even an empty one, is truthy.
  \<open>config.GIT_SEARCH_MAX_DEPTH || 4\<close>: the number 0 is falsy.
\<close>

definition searchPathsOf :: "config \<Rightarrow> string list" where
  "searchPathsOf c = (case GIT_SEARCH_PATHS c of None \<Rightarrow> [''~/dd''] | Some ps \<Rightarrow> ps)"

definition maxDepthOf :: "config \<Rightarrow> int" where
  "maxDepthOf c = (case GIT_SEARCH_MAX_DEPTH c of None \<Rightarrow> 4 | Some d \<Rightarrow> if d = 0 then 4 else d)"

text \<open>
  The second half of \<open>resolveRepo\<close>, after a cache miss: load the configuration, scan, and
  store what was found. Reading a setting of the configuration \<open>null\<close> raises.
\<close>

definition resolveByScan :: "string \<Rightarrow> world \<Rightarrow> (error + string option) \<times> world" where
  "resolveByScan normalized w =
     (case loadConfig w of
        None \<Rightarrow> (Inl TypeError, w)
      | Some cfg \<Rightarrow>
         (let searchPaths = searchPathsOf cfg;
              maxDepth = maxDepthOf cfg;
              w3 = consoleLog (Scanning searchPaths maxDepth) w
          in case scanForRepo w3 normalized searchPaths maxDepth of
               None \<Rightarrow> (Inr None, consoleLog (NotFound normalized) w3)
             | Some found \<Rightarrow>
                 if found = [] then (Inr None, consoleLog (NotFound normalized) w3)
                 else (case cacheStore normalized found (consoleLog (Found found) w3) of
                         (Inl e, w4) \<Rightarrow> (Inl e, w4)
                       | (Inr _, w4) \<Rightarrow> (Inr (Some found), w4))))"

text \<open>\<open>resolveRepo\<close>; \<open>!normalized\<close> holds for \<open>null\<close> and for the empty string.\<close>

definition resolveRepo :: "string \<Rightarrow> world \<Rightarrow> (error + string option) \<times> world" where
  "resolveRepo repoUrl w =
     (case normalizeRepoUrl repoUrl of
        None \<Rightarrow> (Inr None, consoleLog (InvalidRepoUrl repoUrl) w)
      | Some normalized \<Rightarrow>
          if normalized = [] then (Inr None, consoleLog (InvalidRepoUrl repoUrl) w)
          else
            (case cacheLookup normalized (consoleLog (Resolving normalized) w) of
               (Inl e, w2) \<Rightarrow> (Inl e, w2)
             | (Inr cached, w2) \<Rightarrow>
                 if truthy cached then (Inr cached, w2) else resolveByScan normalized w2))"

section \<open>Notions used in the statements\<close>

text \<open>
  The ways of writing the repository \<open>owner/repo\<close> on \<open>host\<close> that the normalizer is meant to
  identify: the SSH form with user \<open>git\<close>, with and without \<open>.git\<close>; the bare, \<open>http\<close> and
  \<open>https\<close> forms, with \<open>.git\<close> or with \<open>n\<close> trailing slashes; for \<open>dev.azure.com\<close>, the
  provider's SSH shorthand. Letter case is part of \<open>host\<close>, \<open>owner\<close> and \<open>repo\<close> as written.
\<close>

definition writtenForms :: "string \<Rightarrow> string \<Rightarrow> string \<Rightarrow> nat \<Rightarrow> string list" where
  "writtenForms host owner repo n =
     (let p = owner @ ''/'' @ repo; web = host @ ''/'' @ p in
        [''git@'' @ host @ '':'' @ p, ''git@'' @ host @ '':'' @ p @ ''.git'']
        @ concat (map (\<lambda>sch. [sch @ web @ ''.git'', sch @ web @ replicate n (CHR ''/'')])
                      ['''', ''http://'', ''https://''])
        @ (if host = ''dev.azure.com''
           then [''git@ssh.dev.azure.com:v3/'' @ p, ''git@ssh.dev.azure.com:v3/'' @ p @ ''.git'']
           else []))"

text \<open>
  \<open>repoAt w repoName normalizedUrl dir names\<close>: going down from \<open>dir\<close> through the
  directories \<open>names\<close>, each one an entry of the listing of its parent, a directory, and
  with a name outside the skip set, ends in a directory that passes the test of
  \<open>walkDir\<close>. The parent of the first name is \<open>dir\<close>, the parent of every other name is
  \<open>path.join\<close> of the parent before and the name before. The length of \<open>names\<close> is the
  number of descents from \<open>dir\<close> to the directory that passes the test, and
  \<open>foldl pathJoin dir names\<close> is its path as \<open>walkDir\<close> builds it.
\<close>

fun repoAt :: "world \<Rightarrow> string \<Rightarrow> string \<Rightarrow> string \<Rightarrow> string list \<Rightarrow> bool" where
  "repoAt w repoName normalizedUrl dir [] = False"
| "repoAt w repoName normalizedUrl dir (n # ns) =
     ((case readdir w dir of None \<Rightarrow> False | Some entries \<Rightarrow> (n, True) \<in> set entries)
      \<and> n \<notin> SKIP_DIRS
      \<and> (if ns = [] then isMatch w repoName normalizedUrl dir n
         else repoAt w repoName normalizedUrl (pathJoin dir n) ns))"

text \<open>
  A name as a file system lists it: not empty, not \<open>.\<close> or \<open>..\<close>, and without a slash. An
  absolute path in normal form: a slash, then one or more such names separated by single
  slashes.
\<close>

definition plainName :: "string \<Rightarrow> bool" where
  "plainName n = (n \<noteq> [] \<and> n \<noteq> ''.'' \<and> n \<noteq> ''..'' \<and> CHR ''/'' \<notin> set n)"

definition normalPath :: "string \<Rightarrow> bool" where
  "normalPath p =
     (case splitOn (CHR ''/'') p of
        [] \<Rightarrow> False
      | s # segs \<Rightarrow> s = [] \<and> segs \<noteq> [] \<and> list_all plainName segs)"

text \<open>Two worlds that differ at most in the cache file and in the console.\<close>

definition sameFiles :: "world \<Rightarrow> world \<Rightarrow> bool" where
  "sameFiles w' w \<longleftrightarrow>
     readdir w' = readdir w \<and> pathExists w' = pathExists w \<and> execSync w' = execSync w
     \<and> HOME w' = HOME w \<and> configFile w' = configFile w \<and> cacheWritable w' = cacheWritable w
     \<and> clock w' = clock w"

section \<open>Example environments\<close>

text \<open>What \<open>git remote -v\<close> prints for a single remote \<open>origin\<close>.\<close>

definition remoteV :: "string \<Rightarrow> string" where
  "remoteV url = ''origin'' @ [CHR 0x09] @ url @ '' (fetch)'' @ [CHR 0x0A]
                 @ ''origin'' @ [CHR 0x09] @ url @ '' (push)'' @ [CHR 0x0A]"

definition emptyWorld :: world where
  "emptyWorld =
     \<lparr>HOME = ''/home/u'', pathExists = (\<lambda>p. False), readdir = (\<lambda>p. None),
      execSync = (\<lambda>cmd. None), cacheFile = Absent, cacheWritable = True,
      configFile = Absent, clock = ''2024-01-01T00:00:00.000Z'', console = []\<rparr>"

text \<open>
  The tree of the test \<open>respects maxDepth\<close>: a checkout three directories below the search
  root \<open>/s\<close>. The root can also be named with a slash at its end.
\<close>

definition depthWorld :: world where
  "depthWorld = emptyWorld
     \<lparr>pathExists := (\<lambda>p. p \<in> set [''/s'', ''/s/'', ''/s/a'', ''/s/a/b'', ''/s/a/b/my-repo'',
                                     ''/s/a/b/my-repo/.git'']),
      readdir := map_of [(''/s'', [(''a'', True)]), (''/s/'', [(''a'', True)]),
                         (''/s/a'', [(''b'', True)]),
                         (''/s/a/b'', [(''my-repo'', True)]),
                         (''/s/a/b/my-repo'', [(''.git'', True)])],
      execSync := map_of [(remoteCommand ''/s/a/b/my-repo'',
                           remoteV ''git@github.com:Org/my-repo.git'')]\<rparr>"

text \<open>A checkout directly inside a directory called \<open>node_modules\<close>.\<close>

definition skipWorld :: world where
  "skipWorld = emptyWorld
     \<lparr>pathExists := (\<lambda>p. p \<in> set [''/w'', ''/w/node_modules'', ''/w/node_modules/my-lib'',
                                     ''/w/node_modules/my-lib/.git'']),
      readdir := map_of [(''/w'', [(''node_modules'', True)]),
                         (''/w/node_modules'', [(''my-lib'', True)]),
                         (''/w/node_modules/my-lib'', [(''.git'', True)])],
      execSync := map_of [(remoteCommand ''/w/node_modules/my-lib'',
                           remoteV ''git@github.com:Org/my-lib.git'')]\<rparr>"

text \<open>A checkout of \<open>github.com/cacheorg/cache-repo\<close> at \<open>/repos/cache-hit\<close>; no cache file yet.\<close>

definition cacheWorld :: world where
  "cacheWorld = emptyWorld
     \<lparr>pathExists := (\<lambda>p. p \<in> set [''/repos'', ''/repos/cache-hit'', ''/repos/cache-hit/.git'']),
      execSync := map_of [(remoteCommand ''/repos/cache-hit'',
                           remoteV ''git@github.com:CacheOrg/cache-repo.git'')]\<rparr>"

text \<open>
  A checkout of \<open>github.com/datadog/web-ui\<close> in a directory whose path has an apostrophe,
  below the default root \<open>~/dd\<close>. A shell reads a word between apostrophes as it stands,
  up to the next apostrophe; an apostrophe inside the word is written by closing the
  quotation, adding an escaped apostrophe and opening the quotation again
  (\<open>shellQuote\<close>). Git prints the remote when it is given the directory, that is for the
  command line with the quoted path; the command line with the bare path between two
  apostrophes has a quotation that is never closed, and the shell refuses it.
\<close>

definition quoteRepo :: string where
  "quoteRepo = ''/home/u/dd/it'' @ [CHR 0x27] @ ''s/web-ui''"

definition shellQuote :: "string \<Rightarrow> string" where
  "shellQuote s =
     [CHR 0x27]
     @ concat (map (\<lambda>c. if c = CHR 0x27 then [CHR 0x27, CHR 0x5C, CHR 0x27, CHR 0x27] else [c]) s)
     @ [CHR 0x27]"

definition quoteWorld :: world where
  "quoteWorld = emptyWorld
     \<lparr>pathExists := (\<lambda>p. p \<in> set [''/home/u/dd'', ''/home/u/dd/it'' @ [CHR 0x27] @ ''s'',
                                     quoteRepo, quoteRepo @ ''/.git'']),
      readdir := map_of [(''/home/u/dd'', [(''it'' @ [CHR 0x27] @ ''s'', True)]),
                         (''/home/u/dd/it'' @ [CHR 0x27] @ ''s'', [(''web-ui'', True)]),
                         (quoteRepo, [(''.git'', True)])],
      execSync := map_of [(''git -C '' @ shellQuote quoteRepo @ '' remote -v'',
                           remoteV ''git@github.com:DataDog/web-ui.git'')]\<rparr>"

text \<open>A cache whose only entry points to a path that is gone.\<close>

definition staleCache :: cache where
  "staleCache = [''github.com/gone/gone'' \<mapsto>
                   \<lparr>path = ''/tmp/definitely-does-not-exist-xyz'',
                    lastUsed = ''2023-06-01T00:00:00.000Z''\<rparr>]"


text \<open>The same cache in a file that cannot be written.\<close>

definition lockedWorld :: world where
  "lockedWorld = emptyWorld\<lparr>cacheFile := Content staleCache, cacheWritable := False\<rparr>"




text \<open>
  A configuration that sets the depth to 0 and no roots, and a checkout three directories
  below the default root.
\<close>

definition zeroDepthWorld :: world where
  "zeroDepthWorld = emptyWorld
     \<lparr>pathExists := (\<lambda>p. p \<in> set [''/home/u/dd'', ''/home/u/dd/a'', ''/home/u/dd/a/b'',
                                     ''/home/u/dd/a/b/my-repo'', ''/home/u/dd/a/b/my-repo/.git'']),
      readdir := map_of [(''/home/u/dd'', [(''a'', True)]), (''/home/u/dd/a'', [(''b'', True)]),
                         (''/home/u/dd/a/b'', [(''my-repo'', True)]),
                         (''/home/u/dd/a/b/my-repo'', [(''.git'', True)])],
      execSync := map_of [(remoteCommand ''/home/u/dd/a/b/my-repo'',
                           remoteV ''git@github.com:Org/my-repo.git'')],
      configFile := Content \<lparr>GIT_SEARCH_PATHS = None, GIT_SEARCH_MAX_DEPTH = Some 0\<rparr>\<rparr>"

section \<open>Proofs\<close>

declare walkDir.simps [simp del]

subsection \<open>Strings and normalization\<close>

lemma toLowerChar_idem: "toLowerChar (toLowerChar c) = toLowerChar c"
proof -
  have "of_char (char_of (of_char c + 32 :: nat)) = ((of_char c + 32) mod 256 :: nat)"
    by (rule of_char_of)
  then show ?thesis
    by (auto simp: toLowerChar_def Let_def)
qed

lemma toLowerCase_idem: "toLowerCase (toLowerCase s) = toLowerCase s"
  by (simp add: toLowerCase_def toLowerChar_idem)

lemma toLowerCase_append: "toLowerCase (a @ b) = toLowerCase a @ toLowerCase b"
  by (simp add: toLowerCase_def)

lemma length_toLowerCase: "length (toLowerCase s) = length s"
  by (simp add: toLowerCase_def)

lemma toLowerCase_take: "toLowerCase (take n s) = take n (toLowerCase s)"
  by (simp add: toLowerCase_def take_map)

lemma toLowerCase_dotgit: "toLowerCase ''.git'' = ''.git''"
  by code_simp

lemma stripGit_lower_idem: "toLowerCase (stripGit (toLowerCase s)) = stripGit (toLowerCase s)"
  by (simp add: stripGit_def toLowerCase_take toLowerCase_idem)

lemma startsWith_append: "startsWith p (p @ s)"
  by (simp add: startsWith_def)

lemma startsWithD: "startsWith p s \<Longrightarrow> s = p @ drop (length p) s"
  unfolding startsWith_def by (metis append_take_drop_id)

lemma endsWith_append: "endsWith p (s @ p)"
  by (simp add: endsWith_def)

lemma endsWith_rev: "endsWith p s \<longleftrightarrow> take (length p) (rev s) = rev p"
proof (cases "length p \<le> length s")
  case True
  then show ?thesis
    by (auto simp: endsWith_def take_rev rev_swap)
next
  case False
  then have "length (take (length p) (rev s)) < length (rev p)" by simp
  then have "take (length p) (rev s) \<noteq> rev p" by fastforce
  with False show ?thesis by (simp add: endsWith_def)
qed

lemma stripGit_append: "stripGit (s @ ''.git'') = s"
  by (simp add: stripGit_def endsWith_append)

lemma stripSlashes_replicate:
  "s = [] \<or> last s \<noteq> CHR ''/'' \<Longrightarrow> stripSlashes (s @ replicate n (CHR ''/'')) = s"
proof -
  assume a: "s = [] \<or> last s \<noteq> CHR ''/''"
  have "dropWhile (\<lambda>c. c = CHR ''/'') (replicate n (CHR ''/'') @ rev s) = rev s"
    using a by (cases "rev s") (auto simp: dropWhile_append3 last_rev)
  then show ?thesis by (simp add: stripSlashes_def)
qed

lemma dropWhile_hd: "s \<noteq> [] \<Longrightarrow> \<not> P (hd s) \<Longrightarrow> dropWhile P s = s"
  by (cases s) auto

lemma trim_id:
  assumes "s \<noteq> []" "\<not> isWhiteSpace (hd s)" "\<not> isWhiteSpace (last s)"
  shows "trim s = s"
proof -
  have "dropWhile isWhiteSpace s = s"
    using assms by (simp add: dropWhile_hd)
  moreover have "dropWhile isWhiteSpace (rev s) = rev s"
    using assms by (simp add: dropWhile_hd hd_rev)
  ultimately show ?thesis by (simp add: trim_def)
qed

lemma takeWhile_all: "\<forall>c\<in>set s. P c \<Longrightarrow> takeWhile P s = s"
  by (induction s) auto

lemma hd_dropWhile_sep:
  "x \<notin> set h \<Longrightarrow> hd (dropWhile (\<lambda>c. c \<noteq> x \<and> c \<noteq> CHR ''/'') (h @ CHR ''/'' # r)) = CHR ''/''"
  by (induction h) auto

lemma no_prefix_sep:
  assumes "x \<notin> set h" "x \<noteq> CHR ''/''" "\<forall>c\<in>set a. c \<noteq> x \<and> c \<noteq> CHR ''/''"
  shows "\<not> startsWith (a @ x # b) (h @ CHR ''/'' # r)"
proof
  assume "startsWith (a @ x # b) (h @ CHR ''/'' # r)"
  then obtain t where eq: "h @ CHR ''/'' # r = a @ x # t"
    using startsWithD by fastforce
  have "dropWhile (\<lambda>c. c \<noteq> x \<and> c \<noteq> CHR ''/'') (a @ x # t) = x # t"
    using assms(3) by (simp add: dropWhile_append3)
  then have "hd (dropWhile (\<lambda>c. c \<noteq> x \<and> c \<noteq> CHR ''/'') (h @ CHR ''/'' # r)) = x"
    by (simp add: eq)
  with hd_dropWhile_sep [OF assms(1)] assms(2) show False by simp
qed

lemma no_git_prefix: "CHR ''@'' \<notin> set h \<Longrightarrow> \<not> startsWith ''git@'' (h @ CHR ''/'' # r)"
  using no_prefix_sep [of "CHR ''@''" h "''git''" "[]" r] by simp

lemma no_http_prefix: "CHR '':'' \<notin> set h \<Longrightarrow> \<not> startsWith ''http://'' (h @ CHR ''/'' # r)"
  using no_prefix_sep [of "CHR '':''" h "''http''" "''//''" r] by simp

lemma no_https_prefix: "CHR '':'' \<notin> set h \<Longrightarrow> \<not> startsWith ''https://'' (h @ CHR ''/'' # r)"
  using no_prefix_sep [of "CHR '':''" h "''https''" "''//''" r] by simp

lemma startsWith_prefix:
  assumes "startsWith (a @ b) s"
  shows "startsWith a s"
proof -
  from startsWithD [OF assms] obtain t where "s = (a @ b) @ t" ..
  then show ?thesis by (simp add: startsWith_def)
qed

lemma azureMatch_git: "\<not> startsWith ''git@'' u \<Longrightarrow> azureMatch u = None"
proof -
  assume n: "\<not> startsWith ''git@'' u"
  have "\<not> startsWith ''git@ssh.dev.azure.com:v3/'' u"
  proof
    assume "startsWith ''git@ssh.dev.azure.com:v3/'' u"
    then have "startsWith (''git@'' @ ''ssh.dev.azure.com:v3/'') u" by simp
    then have "startsWith ''git@'' u" by (rule startsWith_prefix)
    with n show False ..
  qed
  then show ?thesis by (simp add: azureMatch_def)
qed

lemma sshMatch_git: "\<not> startsWith ''git@'' u \<Longrightarrow> sshMatch u = None"
  by (simp add: sshMatch_def)

lemma normalize_fallback:
  assumes "u \<noteq> []" "trim u = u" "\<not> startsWith ''git@'' u"
  shows "normalizeRepoUrl u = Some (toLowerCase (stripSlashes (stripGit (stripScheme u))))"
  using assms by (simp add: normalizeRepoUrl_def azureMatch_git sshMatch_git)

lemma takeWhile_sep: "x \<notin> set h \<Longrightarrow> takeWhile (\<lambda>c. c \<noteq> x) (h @ x # p) = h"
  by (induction h) auto

lemma dropWhile_sep: "x \<notin> set h \<Longrightarrow> dropWhile (\<lambda>c. c \<noteq> x) (h @ x # p) = x # p"
  by (induction h) auto

lemma sshMatch_form:
  assumes "h \<noteq> []" "CHR '':'' \<notin> set h" "p \<noteq> []" "\<forall>c\<in>set p. \<not> isLineTerminator c"
  shows "sshMatch (''git@'' @ h @ '':'' @ p) = Some (h, p)"
proof -
  have "takeWhile (\<lambda>c. c \<noteq> CHR '':'') (h @ CHR '':'' # p) = h"
    using assms(2) by (rule takeWhile_sep)
  moreover have "dropWhile (\<lambda>c. c \<noteq> CHR '':'') (h @ CHR '':'' # p) = CHR '':'' # p"
    using assms(2) by (rule dropWhile_sep)
  moreover have "takeWhile (\<lambda>c. \<not> isLineTerminator c) p = p"
    using assms(4) by (simp add: takeWhile_all)
  ultimately show ?thesis
    using assms(1,3) by (simp add: sshMatch_def startsWith_def Let_def del: takeWhile_eq_all_conv)
qed

lemma sep_unique:
  assumes "x \<notin> set a" "x \<notin> set b" "a @ x # s = b @ x # t"
  shows "a = b \<and> s = t"
proof -
  have "takeWhile (\<lambda>c. c \<noteq> x) (a @ x # s) = takeWhile (\<lambda>c. c \<noteq> x) (b @ x # t)"
    and "dropWhile (\<lambda>c. c \<noteq> x) (a @ x # s) = dropWhile (\<lambda>c. c \<noteq> x) (b @ x # t)"
    using assms(3) by simp_all
  then show ?thesis
    by (simp add: takeWhile_sep [OF assms(1)] takeWhile_sep [OF assms(2)]
        dropWhile_sep [OF assms(1)] dropWhile_sep [OF assms(2)])
qed

lemma azureMatch_form:
  assumes "CHR '':'' \<notin> set h" "azureMatch (''git@'' @ h @ '':'' @ p) = Some g"
  shows "h = ''ssh.dev.azure.com'' \<and> startsWith ''v3/'' p \<and> 3 < length p"
proof -
  let ?u = "''git@'' @ h @ '':'' @ p"
  from assms(2) have sw: "startsWith ''git@ssh.dev.azure.com:v3/'' ?u"
    by (simp add: azureMatch_def split: if_splits)
  from assms(2) have g: "takeWhile (\<lambda>c. \<not> isLineTerminator c) (drop 25 ?u) \<noteq> []"
    by (simp add: azureMatch_def Let_def split: if_splits)
  define t where "t = drop 25 ?u"
  from startsWithD [OF sw] have "?u = ''git@ssh.dev.azure.com:v3/'' @ t"
    by (simp add: t_def)
  then have "h @ CHR '':'' # p = ''ssh.dev.azure.com'' @ CHR '':'' # (''v3/'' @ t)"
    by simp
  moreover have "CHR '':'' \<notin> set ''ssh.dev.azure.com''" by simp
  ultimately have hp: "h = ''ssh.dev.azure.com'' \<and> p = ''v3/'' @ t"
    using assms(1) by (intro sep_unique [of "CHR '':''"])
  have "t \<noteq> []"
  proof
    assume "t = []"
    with g show False by (simp add: t_def)
  qed
  then have "3 < length p" using hp by simp
  moreover have "startsWith ''v3/'' p" using hp by (simp add: startsWith_def)
  moreover have "h = ''ssh.dev.azure.com''" using hp by (rule conjunct1)
  ultimately show ?thesis by (intro conjI)
qed

lemma lower_result: "normalizeRepoUrl x = Some y \<Longrightarrow> toLowerCase y = y"
  by (auto simp: normalizeRepoUrl_def Let_def stripGit_lower_idem toLowerCase_idem
      split: if_splits option.splits prod.splits)

lemma endsWith_tail:
  assumes "endsWith p (a @ x # r)" "x \<notin> set p"
  shows "endsWith p r"
proof (cases "length p \<le> length r")
  case True
  with assms(1) show ?thesis by (simp add: endsWith_rev)
next
  case False
  then obtain k where k: "length p - length r = Suc k"
    by (metis Suc_diff_Suc diff_zero not_le)
  from False have "take (length p) (rev r) = rev r" by simp
  with assms(1) have "rev r @ take (length p - length r) (x # rev a) = rev p"
    by (simp add: endsWith_rev)
  then have "rev r @ x # take k (rev a) = rev p" by (simp add: k)
  then have "x \<in> set (rev p)" by (metis in_set_conv_decomp)
  with assms(2) show ?thesis by simp
qed

lemma endsWith_lower:
  assumes "endsWith p s"
  shows "endsWith (toLowerCase p) (toLowerCase s)"
proof -
  from assms have "take (length p) (rev s) = rev p" by (simp add: endsWith_rev)
  then have "map toLowerChar (take (length p) (rev s)) = map toLowerChar (rev p)" by simp
  then show ?thesis by (simp add: endsWith_rev toLowerCase_def rev_map take_map)
qed

lemma endsWith_last: "endsWith p s \<Longrightarrow> p \<noteq> [] \<Longrightarrow> last s = last p"
  by (metis endsWith_def last_drop length_greater_0_conv diff_less less_le_trans
            length_0_conv not_le zero_less_diff le_zero_eq)

lemma stripGit_id: "\<not> endsWith ''.git'' s \<Longrightarrow> stripGit s = s"
  by (simp add: stripGit_def)

lemma dropWhile_length_eq:
  assumes "length (dropWhile P s) = length s"
  shows "dropWhile P s = s"
proof -
  have "length (takeWhile P s) + length (dropWhile P s) = length s"
    by (metis length_append takeWhile_dropWhile_id)
  with assms have "takeWhile P s = []" by simp
  then show ?thesis by (metis append_Nil takeWhile_dropWhile_id)
qed

lemma startsWith_length: "startsWith p s \<Longrightarrow> length p \<le> length s"
  by (metis startsWithD length_append le_add1)

lemma length_trim: "length (trim s) \<le> length s"
proof -
  have "length (dropWhile isWhiteSpace (rev (dropWhile isWhiteSpace s)))
        \<le> length (rev (dropWhile isWhiteSpace s))"
    by (rule length_dropWhile_le)
  also have "\<dots> \<le> length s" by (simp add: length_dropWhile_le)
  finally show ?thesis by (simp add: trim_def)
qed

lemma trim_length_eq:
  assumes "length (trim s) = length s"
  shows "trim s = s"
proof -
  let ?d = "dropWhile isWhiteSpace s"
  have a: "length (dropWhile isWhiteSpace (rev ?d)) \<le> length ?d"
    using length_dropWhile_le [of isWhiteSpace "rev ?d"] by simp
  have b: "length ?d \<le> length s" by (rule length_dropWhile_le)
  from assms have c: "length (dropWhile isWhiteSpace (rev ?d)) = length s"
    by (simp add: trim_def)
  from a b c have "length ?d = length s" by linarith
  then have d: "?d = s" by (rule dropWhile_length_eq)
  from c d have "length (dropWhile isWhiteSpace (rev s)) = length (rev s)" by simp
  then have "dropWhile isWhiteSpace (rev s) = rev s" by (rule dropWhile_length_eq)
  with d show ?thesis by (simp add: trim_def)
qed

lemma trim_fixed: "s \<noteq> [] \<Longrightarrow> trim s = s \<Longrightarrow> \<not> isWhiteSpace (hd s) \<and> \<not> isWhiteSpace (last s)"
proof -
  assume ne: "s \<noteq> []" and t: "trim s = s"
  then have "length (trim s) = length s" by simp
  have a: "length (dropWhile isWhiteSpace (rev (dropWhile isWhiteSpace s)))
        \<le> length (dropWhile isWhiteSpace s)"
    using length_dropWhile_le [of isWhiteSpace "rev (dropWhile isWhiteSpace s)"] by simp
  have b: "length (dropWhile isWhiteSpace s) \<le> length s" by (rule length_dropWhile_le)
  from t have c: "length (dropWhile isWhiteSpace (rev (dropWhile isWhiteSpace s))) = length s"
    by (metis length_rev trim_def)
  from a b c have "length (dropWhile isWhiteSpace s) = length s" by linarith
  then have d: "dropWhile isWhiteSpace s = s" by (rule dropWhile_length_eq)
  from c d have "length (dropWhile isWhiteSpace (rev s)) = length (rev s)" by simp
  then have e: "dropWhile isWhiteSpace (rev s) = rev s" by (rule dropWhile_length_eq)
  from d ne have "\<not> isWhiteSpace (hd s)" by (metis hd_dropWhile)
  moreover from e ne have "\<not> isWhiteSpace (hd (rev s))" by (metis hd_dropWhile rev_is_Nil_conv)
  ultimately show ?thesis using ne by (simp add: hd_rev)
qed

lemma endsWith_length: "endsWith p s \<Longrightarrow> length p \<le> length s"
  by (simp add: endsWith_def)

lemma dropWhile_fixed_hd: "s \<noteq> [] \<Longrightarrow> dropWhile P s = s \<Longrightarrow> \<not> P (hd s)"
  by (metis hd_dropWhile)

lemma length_stripScheme: "length (stripScheme s) \<le> length s"
  by (simp add: stripScheme_def)

lemma stripScheme_length_eq:
  assumes "length (stripScheme s) = length s"
  shows "\<not> startsWith ''http://'' s \<and> \<not> startsWith ''https://'' s"
proof (cases "startsWith ''http://'' s")
  case True
  from startsWith_length [OF True] have "7 \<le> length s" by simp
  moreover from assms True have "length s - 7 = length s" by (simp add: stripScheme_def)
  ultimately show ?thesis by arith
next
  case False
  show ?thesis
  proof (cases "startsWith ''https://'' s")
    case True
    from startsWith_length [OF True] have "8 \<le> length s" by simp
    moreover from assms True False have "length s - 8 = length s" by (simp add: stripScheme_def)
    ultimately show ?thesis by arith
  next
    case False
    with \<open>\<not> startsWith ''http://'' s\<close> show ?thesis by simp
  qed
qed

lemma length_stripGit: "length (stripGit s) \<le> length s"
  by (simp add: stripGit_def)

lemma stripGit_length_eq:
  assumes "length (stripGit s) = length s"
  shows "\<not> endsWith ''.git'' s"
proof
  assume e: "endsWith ''.git'' s"
  then have "length ''.git'' \<le> length s" by (rule endsWith_length)
  then have "4 \<le> length s" by simp
  moreover from assms e have "length s - 4 = length s" by (simp add: stripGit_def)
  ultimately show False by arith
qed

lemma length_stripSlashes: "length (stripSlashes s) \<le> length s"
  using length_dropWhile_le [of "\<lambda>c. c = CHR ''/''" "rev s"] by (simp add: stripSlashes_def)

lemma stripSlashes_length_eq:
  assumes "length (stripSlashes s) = length s" "s \<noteq> []"
  shows "last s \<noteq> CHR ''/''"
proof -
  from assms(1) have "length (dropWhile (\<lambda>c. c = CHR ''/'') (rev s)) = length (rev s)"
    by (simp add: stripSlashes_def)
  then have "dropWhile (\<lambda>c. c = CHR ''/'') (rev s) = rev s" by (rule dropWhile_length_eq)
  moreover have "rev s \<noteq> []" using assms(2) by simp
  ultimately have "hd (rev s) \<noteq> CHR ''/''" using dropWhile_fixed_hd by blast
  then show ?thesis using assms(2) by (simp add: hd_rev)
qed

lemma normalize_ssh_form:
  assumes host: "host \<noteq> []" "CHR '':'' \<notin> set host"
    and pth: "pth \<noteq> []" "\<forall>c\<in>set pth. \<not> isLineTerminator c" "\<not> isWhiteSpace (last pth)"
    and notAzure: "\<not> (host = ''ssh.dev.azure.com'' \<and> startsWith ''v3/'' pth \<and> 3 < length pth)"
  shows "normalizeRepoUrl (''git@'' @ host @ '':'' @ pth)
         = Some (stripGit (toLowerCase (host @ ''/'' @ pth)))"
proof -
  let ?u = "''git@'' @ host @ '':'' @ pth"
  have "last ?u = last pth"
    using pth(1) by simp
  then have "\<not> isWhiteSpace (last ?u)" using pth(3) by simp
  moreover have "\<not> isWhiteSpace (hd ?u)" by (simp add: isWhiteSpace_def)
  ultimately have tr: "trim ?u = ?u" by (intro trim_id) simp_all
  have az: "azureMatch ?u = None"
  proof (cases "azureMatch ?u")
    case (Some g)
    from azureMatch_form [OF host(2) Some] notAzure show ?thesis by blast
  qed simp
  have ssh: "sshMatch ?u = Some (host, pth)"
    using host pth(1,2) by (rule sshMatch_form)
  have "?u \<noteq> []" by simp
  then show ?thesis
    unfolding normalizeRepoUrl_def tr Let_def az ssh by simp
qed

lemma azure_form:
  assumes "p \<noteq> []" "\<forall>c\<in>set p. \<not> isLineTerminator c" "\<not> isWhiteSpace (last p)"
  shows "normalizeRepoUrl (''git@ssh.dev.azure.com:v3/'' @ p)
         = Some (stripGit (toLowerCase (''dev.azure.com/'' @ p)))"
proof -
  let ?u = "''git@ssh.dev.azure.com:v3/'' @ p"
  have "last ?u = last p" using assms(1) by simp
  then have "\<not> isWhiteSpace (last ?u)" using assms(3) by simp
  moreover have "\<not> isWhiteSpace (hd ?u)" by (simp add: isWhiteSpace_def)
  ultimately have tr: "trim ?u = ?u" by (intro trim_id) simp_all
  have "takeWhile (\<lambda>c. \<not> isLineTerminator c) p = p"
    using assms(2) by (simp add: takeWhile_all)
  then have az: "azureMatch ?u = Some p"
    using assms(1) by (simp add: azureMatch_def startsWith_def Let_def del: takeWhile_eq_all_conv)
  have "?u \<noteq> []" by simp
  then show ?thesis
    unfolding normalizeRepoUrl_def tr Let_def az by simp
qed

lemma web_not_git:
  assumes "\<not> endsWith ''.git'' (toLowerCase repo)"
  shows "\<not> endsWith ''.git'' (toLowerCase (a @ ''/'' @ repo))"
    and "\<not> endsWith ''.git'' (a @ ''/'' @ repo)"
proof -
  show l: "\<not> endsWith ''.git'' (toLowerCase (a @ ''/'' @ repo))"
  proof
    assume "endsWith ''.git'' (toLowerCase (a @ ''/'' @ repo))"
    then have "endsWith ''.git'' (toLowerCase a @ toLowerChar (CHR ''/'') # toLowerCase repo)"
      by (simp add: toLowerCase_def)
    moreover have "toLowerChar (CHR ''/'') = CHR ''/''" by code_simp
    ultimately have "endsWith ''.git'' (toLowerCase a @ CHR ''/'' # toLowerCase repo)"
      by simp
    then have "endsWith ''.git'' (toLowerCase repo)"
      by (rule endsWith_tail) simp
    with assms show False ..
  qed
  show "\<not> endsWith ''.git'' (a @ ''/'' @ repo)"
  proof
    assume "endsWith ''.git'' (a @ ''/'' @ repo)"
    from endsWith_lower [OF this] l show False by (simp add: toLowerCase_dotgit)
  qed
qed

lemma web_form:
  assumes host: "host \<noteq> []" "CHR '':'' \<notin> set host" "CHR ''@'' \<notin> set host"
                "\<not> isWhiteSpace (hd host)"
    and repo: "repo \<noteq> []" "\<not> isWhiteSpace (last repo)" "last repo \<noteq> CHR ''/''"
              "\<not> endsWith ''.git'' (toLowerCase repo)"
    and sch: "sch \<in> {'''', ''http://'', ''https://''}"
    and suf: "suf = ''.git'' \<or> suf = replicate n (CHR ''/'')"
  shows "normalizeRepoUrl (sch @ (host @ ''/'' @ owner @ ''/'' @ repo) @ suf)
         = Some (toLowerCase (host @ ''/'' @ owner @ ''/'' @ repo))"
proof -
  let ?web = "host @ ''/'' @ owner @ ''/'' @ repo"
  let ?u = "sch @ ?web @ suf"
  have weblast: "last ?web = last repo" using repo(1) by simp
  have ne: "?u \<noteq> []" using host(1) by simp
  have hd: "\<not> isWhiteSpace (hd ?u)"
    using sch host(1,4) by (auto simp: isWhiteSpace_def)
  have "last ?u = (if suf = [] then last repo else last suf)"
    using repo(1) by simp
  moreover have "suf \<noteq> [] \<Longrightarrow> \<not> isWhiteSpace (last suf)"
    using suf by (auto simp: isWhiteSpace_def)
  ultimately have "\<not> isWhiteSpace (last ?u)"
    using repo(2) by (cases "suf = []") simp_all
  with ne hd have tr: "trim ?u = ?u" by (intro trim_id)
  have bare: "?web @ suf = host @ CHR ''/'' # (owner @ ''/'' @ repo @ suf)" by simp
  have nogit: "\<not> startsWith ''git@'' ?u"
  proof (cases "sch = []")
    case True
    then show ?thesis using no_git_prefix [OF host(3)] bare by simp
  next
    case False
    with sch show ?thesis by (auto simp: startsWith_def)
  qed
  have scheme: "stripScheme ?u = ?web @ suf"
  proof (cases "sch = []")
    case True
    then show ?thesis
      using no_http_prefix [OF host(2)] no_https_prefix [OF host(2)] bare
      by (simp add: stripScheme_def)
  next
    case False
    with sch show ?thesis by (auto simp: stripScheme_def startsWith_def)
  qed
  have webgit: "\<not> endsWith ''.git'' ?web"
    using web_not_git(2) [OF repo(4), of "host @ ''/'' @ owner"] by simp
  have slash: "stripSlashes (?web @ replicate k (CHR ''/'')) = ?web" for k
    by (rule stripSlashes_replicate) (simp add: repo(1,3))
  have "stripSlashes (stripGit (?web @ suf)) = ?web"
  proof (cases "suf = ''.git''")
    case True
    have "stripGit (?web @ ''.git'') = ?web" by (rule stripGit_append)
    then show ?thesis using slash [of 0] True by simp
  next
    case False
    with suf have s: "suf = replicate n (CHR ''/'')" by simp
    have "\<not> endsWith ''.git'' (?web @ suf)"
    proof (cases n)
      case 0
      then show ?thesis using webgit s by simp
    next
      case (Suc m)
      show ?thesis
      proof
        assume "endsWith ''.git'' (?web @ suf)"
        from endsWith_last [OF this] have "last (?web @ suf) = CHR ''t''" by simp
        moreover have "last suf = CHR ''/''"
          unfolding s using Suc by (intro last_replicate) simp
        moreover have "suf \<noteq> []" using s Suc by simp
        ultimately show False by simp
      qed
    qed
    then have "stripGit (?web @ suf) = ?web @ suf" by (rule stripGit_id)
    then show ?thesis using slash [of n] s by simp
  qed
  then show ?thesis
    using normalize_fallback [OF ne tr nogit] scheme by simp
qed

lemma azureMatch_length:
  assumes "azureMatch u = Some g"
  shows "length g + 25 \<le> length u"
proof -
  from assms have sw: "startsWith ''git@ssh.dev.azure.com:v3/'' u"
    by (simp add: azureMatch_def split: if_splits)
  from assms sw have g: "g = takeWhile (\<lambda>c. \<not> isLineTerminator c) (drop 25 u)"
    by (simp add: azureMatch_def Let_def split: if_splits)
  have "length g \<le> length (drop 25 u)"
    unfolding g by (rule length_takeWhile_le)
  moreover from startsWith_length [OF sw] have "25 \<le> length u" by simp
  ultimately show ?thesis by simp
qed

lemma sshMatch_length:
  assumes "sshMatch u = Some (h, g)"
  shows "length h + length g + 5 \<le> length u"
proof -
  let ?r = "drop 4 u"
  let ?t = "dropWhile (\<lambda>c. c \<noteq> CHR '':'') ?r"
  from assms have sw: "startsWith ''git@'' u"
    by (simp add: sshMatch_def split: if_splits)
  from assms sw have h: "h = takeWhile (\<lambda>c. c \<noteq> CHR '':'') ?r"
    by (simp add: sshMatch_def Let_def split: if_splits list.splits)
  from assms sw obtain c t' where t: "?t = c # t'"
    and g: "g = takeWhile (\<lambda>c. \<not> isLineTerminator c) t'"
    by (simp add: sshMatch_def Let_def split: if_splits list.splits)
  have "length g \<le> length t'" unfolding g by (rule length_takeWhile_le)
  moreover have "length ?r = length h + length ?t"
    unfolding h by (metis length_append takeWhile_dropWhile_id)
  moreover from startsWith_length [OF sw] have "4 \<le> length u" by simp
  ultimately show ?thesis by (simp add: t)
qed

subsection \<open>Claims on normalization\<close>

text \<open>
  C4 (amended). Cross-syntax equivalence holds for the SSH form with the user \<open>git\<close>:
  for a host that is not empty, has no colon and no \<open>@\<close>, does not start with white space
  and is not \<open>ssh.dev.azure.com\<close>, and a repository name that is not empty, does not end
  in white space, in a slash or (in any letter case) in \<open>.git\<close>, with no line break in
  owner or name, every written form of \<open>host/owner/repo\<close> normalizes to the lower-cased
  \<open>host/owner/repo\<close>: \<open>git@host:owner/repo\<close> with or without \<open>.git\<close>; the bare, \<open>http://\<close> and
  \<open>https://\<close> forms with \<open>.git\<close> or with any number of trailing slashes; for
  \<open>dev.azure.com\<close> the shorthand \<open>git@ssh.dev.azure.com:v3/owner/repo\<close>. The result depends on
  the letters of host, owner and name only through their lower case, so spellings that
  differ in case agree. White space is the white space of \<open>trim\<close>, the no-break space
  included, and lower case is that of \<open>toLowerCase\<close>, on strings of characters below
  \<open>U+0100\<close>.
\<close>

theorem normalize_cross_syntax:
  assumes host: "host \<noteq> []" "CHR '':'' \<notin> set host" "CHR ''@'' \<notin> set host"
                "\<not> isWhiteSpace (hd host)" "host \<noteq> ''ssh.dev.azure.com''"
    and repo: "repo \<noteq> []" "\<not> isWhiteSpace (last repo)" "last repo \<noteq> CHR ''/''"
              "\<not> endsWith ''.git'' (toLowerCase repo)"
    and lines: "\<forall>c\<in>set (owner @ repo). \<not> isLineTerminator c"
  shows "\<forall>u\<in>set (writtenForms host owner repo n).
           normalizeRepoUrl u = Some (toLowerCase (host @ ''/'' @ owner @ ''/'' @ repo))"
proof -
  let ?p = "owner @ ''/'' @ repo"
  let ?c = "Some (toLowerCase (host @ ''/'' @ ?p))"
  have p: "?p \<noteq> []" "\<forall>c\<in>set ?p. \<not> isLineTerminator c" "\<not> isWhiteSpace (last ?p)"
    using lines repo(1,2) by (auto simp: isLineTerminator_def)
  have pg: "?p @ ''.git'' \<noteq> []" "\<forall>c\<in>set (?p @ ''.git''). \<not> isLineTerminator c"
           "\<not> isWhiteSpace (last (?p @ ''.git''))"
    using lines by (auto simp: isLineTerminator_def isWhiteSpace_def)
  have ng: "\<not> endsWith ''.git'' (toLowerCase (host @ ''/'' @ ?p))"
    using web_not_git(1) [OF repo(4), of "host @ ''/'' @ owner"] by simp
  have strip1: "stripGit (toLowerCase (host @ ''/'' @ ?p)) = toLowerCase (host @ ''/'' @ ?p)"
    using ng by (rule stripGit_id)
  have "toLowerCase (host @ ''/'' @ ?p @ ''.git'') = toLowerCase (host @ ''/'' @ ?p) @ ''.git''"
    using toLowerCase_append [of "host @ ''/'' @ ?p" "''.git''"] by (simp add: toLowerCase_dotgit)
  then have strip2: "stripGit (toLowerCase (host @ ''/'' @ ?p @ ''.git'')) = toLowerCase (host @ ''/'' @ ?p)"
    by (simp only: stripGit_append)
  have ssh1: "normalizeRepoUrl (''git@'' @ host @ '':'' @ ?p) = ?c"
    using normalize_ssh_form [OF host(1,2) p] host(5) strip1 by simp
  have ssh2: "normalizeRepoUrl (''git@'' @ host @ '':'' @ ?p @ ''.git'') = ?c"
    using normalize_ssh_form [OF host(1,2) pg] host(5) strip2 by simp
  have web: "normalizeRepoUrl (sch @ (host @ ''/'' @ ?p) @ suf) = ?c"
    if "sch \<in> {[], ''http://'', ''https://''}" "suf = ''.git'' \<or> suf = replicate n (CHR ''/'')"
    for sch suf
    using web_form [OF host(1-4) repo that] .
  have az1: "normalizeRepoUrl (''git@ssh.dev.azure.com:v3/'' @ ?p) = ?c" if "host = ''dev.azure.com''"
    using azure_form [OF p] strip1 that by simp
  have az2: "normalizeRepoUrl (''git@ssh.dev.azure.com:v3/'' @ ?p @ ''.git'') = ?c"
    if "host = ''dev.azure.com''"
    using azure_form [OF pg] strip2 that by simp
  have A: "\<forall>u\<in>set [''git@'' @ host @ '':'' @ ?p, ''git@'' @ host @ '':'' @ ?p @ ''.git''].
             normalizeRepoUrl u = ?c"
    using ssh1 ssh2 by simp
  have B: "\<forall>u\<in>set (concat (map (\<lambda>sch. [sch @ (host @ ''/'' @ ?p) @ ''.git'',
                                          sch @ (host @ ''/'' @ ?p) @ replicate n (CHR ''/'')])
                                  ['''', ''http://'', ''https://''])).
             normalizeRepoUrl u = ?c"
    using web [of "[]" "''.git''"] web [of "[]" "replicate n (CHR ''/'')"]
      web [of "''http://''" "''.git''"] web [of "''http://''" "replicate n (CHR ''/'')"]
      web [of "''https://''" "''.git''"] web [of "''https://''" "replicate n (CHR ''/'')"]
    by simp
  have C: "\<forall>u\<in>set (if host = ''dev.azure.com''
                     then [''git@ssh.dev.azure.com:v3/'' @ ?p,
                           ''git@ssh.dev.azure.com:v3/'' @ ?p @ ''.git'']
                     else []).
             normalizeRepoUrl u = ?c"
  proof (cases "host = ''dev.azure.com''")
    case True
    then show ?thesis using az1 az2 by simp
  next
    case False
    then show ?thesis by simp
  qed
  show ?thesis
    unfolding writtenForms_def Let_def set_append ball_Un
    using A B C by (intro conjI)
qed

text \<open>
  The three inputs of the specification, from two spellings of the same repository.
\<close>

theorem normalize_cross_syntax_witness:
  "normalizeRepoUrl ''git@github.com:DataDog/web-ui.git'' = Some ''github.com/datadog/web-ui''
   \<and> normalizeRepoUrl ''https://github.com/DataDog/web-ui.git'' = Some ''github.com/datadog/web-ui''
   \<and> normalizeRepoUrl ''GITHUB.COM/DataDog/Web-UI'' = Some ''github.com/datadog/web-ui''"
proof -
  have h1: "\<not> endsWith ''.git'' (toLowerCase ''web-ui'')" by code_simp
  have h2: "\<not> endsWith ''.git'' (toLowerCase ''Web-UI'')" by code_simp
  have l1: "toLowerCase (''github.com'' @ ''/'' @ ''DataDog'' @ ''/'' @ ''web-ui'')
            = ''github.com/datadog/web-ui''" by code_simp
  have l2: "toLowerCase (''GITHUB.COM'' @ ''/'' @ ''DataDog'' @ ''/'' @ ''Web-UI'')
            = ''github.com/datadog/web-ui''" by code_simp
  have a: "\<forall>u\<in>set (writtenForms ''github.com'' ''DataDog'' ''web-ui'' 0).
             normalizeRepoUrl u = Some ''github.com/datadog/web-ui''"
    using normalize_cross_syntax [of "''github.com''" "''web-ui''" "''DataDog''" 0] h1
    unfolding l1 by (simp add: isWhiteSpace_def isLineTerminator_def)
  have b: "\<forall>u\<in>set (writtenForms ''GITHUB.COM'' ''DataDog'' ''Web-UI'' 0).
             normalizeRepoUrl u = Some ''github.com/datadog/web-ui''"
    using normalize_cross_syntax [of "''GITHUB.COM''" "''Web-UI''" "''DataDog''" 0] h2
    unfolding l2 by (simp add: isWhiteSpace_def isLineTerminator_def)
  have "''git@github.com:DataDog/web-ui.git'' \<in> set (writtenForms ''github.com'' ''DataDog'' ''web-ui'' 0)"
    and "''https://github.com/DataDog/web-ui.git'' \<in> set (writtenForms ''github.com'' ''DataDog'' ''web-ui'' 0)"
    and "''GITHUB.COM/DataDog/Web-UI'' \<in> set (writtenForms ''GITHUB.COM'' ''DataDog'' ''Web-UI'' 0)"
    by (simp_all add: writtenForms_def Let_def)
  with a b show ?thesis by blast
qed

text \<open>
  The claim as stated fails for an SSH user other than \<open>git\<close>: the input is not read as an
  SSH form, and differs from the \<open>https\<close> form of the same repository.
\<close>

theorem cross_syntax_counterexample:
  "normalizeRepoUrl ''deploy@github.com:DataDog/web-ui.git''
     = Some ''deploy@github.com:datadog/web-ui''
   \<and> normalizeRepoUrl ''https://github.com/DataDog/web-ui.git''
     = Some ''github.com/datadog/web-ui''"
proof
  show "normalizeRepoUrl ''deploy@github.com:DataDog/web-ui.git''
          = Some ''deploy@github.com:datadog/web-ui''" by code_simp
  show "normalizeRepoUrl ''https://github.com/DataDog/web-ui.git''
          = Some ''github.com/datadog/web-ui''" by code_simp
qed

text \<open>
  C5. The canonical form (lower case, no protocol prefix, no trailing \<open>.git\<close>, no trailing
  slash) is what the function's own comment promises; the code misses it. A \<open>.git\<close> that
  is followed by a slash survives, because the suffix is removed before the slashes.
\<close>

theorem canonical_form_violation:
  "normalizeRepoUrl ''https://github.com/DataDog/web-ui.git/''
     = Some ''github.com/datadog/web-ui.git''"
  by code_simp

text \<open>The part of the canonical form that holds for every input: the result is lower case.\<close>

lemma normalize_lower_case:
  "normalizeRepoUrl x = Some y \<Longrightarrow> toLowerCase y = y"
  by (rule lower_result)

text \<open>
  C6 (amended). The SSH rule is for the user \<open>git\<close>: for a host that is not empty and has
  no colon, and a path that is not empty, has no line break and does not end in white
  space, outside the provider-specific case (host \<open>ssh.dev.azure.com\<close> with a path
  \<open>v3/...\<close>), the input \<open>git@host:path\<close> normalizes to \<open>host/path\<close> in lower case with one
  trailing \<open>.git\<close> removed. White space is the white space of \<open>trim\<close>, the no-break space
  included; host and path are strings of characters below \<open>U+0100\<close>.
\<close>

theorem normalize_ssh_git_user:
  assumes "host \<noteq> []" "CHR '':'' \<notin> set host"
    and "pth \<noteq> []" "\<forall>c\<in>set pth. \<not> isLineTerminator c" "\<not> isWhiteSpace (last pth)"
    and "\<not> (host = ''ssh.dev.azure.com'' \<and> startsWith ''v3/'' pth \<and> 3 < length pth)"
  shows "normalizeRepoUrl (''git@'' @ host @ '':'' @ pth)
         = Some (stripGit (toLowerCase (host @ ''/'' @ pth)))"
  using assms by (rule normalize_ssh_form)

theorem normalize_ssh_git_user_witness:
  "normalizeRepoUrl (''git@'' @ ''gitlab.com'' @ '':'' @ ''Team/App.git'') = Some ''gitlab.com/team/app''"
proof -
  have "stripGit (toLowerCase (''gitlab.com'' @ ''/'' @ ''Team/App.git'')) = ''gitlab.com/team/app''"
    by code_simp
  then show ?thesis
    using normalize_ssh_git_user [of "''gitlab.com''" "''Team/App.git''"]
    by (simp add: isWhiteSpace_def isLineTerminator_def)
qed

text \<open>
  A path that ends in a no-break space is outside the rule as amended: \<open>trim\<close> removes
  the space before the rules are tried.
\<close>

lemma ssh_no_break_space:
  "normalizeRepoUrl (''git@gitlab.com:Team/App.git'' @ [CHR 0xA0]) = Some ''gitlab.com/team/app''"
  by code_simp

text \<open>For another user the input falls through to the last rule, and keeps user and colon.\<close>

theorem generic_ssh_counterexample:
  "normalizeRepoUrl (''alice'' @ ''@'' @ ''gitlab.com'' @ '':'' @ ''Team/App.git'')
     = Some ''alice@gitlab.com:team/app''
   \<and> stripGit (toLowerCase (''gitlab.com'' @ ''/'' @ ''Team/App.git'')) = ''gitlab.com/team/app''"
proof
  show "normalizeRepoUrl (''alice'' @ ''@'' @ ''gitlab.com'' @ '':'' @ ''Team/App.git'')
          = Some ''alice@gitlab.com:team/app''" by code_simp
  show "stripGit (toLowerCase (''gitlab.com'' @ ''/'' @ ''Team/App.git'')) = ''gitlab.com/team/app''"
    by code_simp
qed

text \<open>
  C7 (amended). A result of \<open>normalizeRepoUrl\<close> is a fixed point of it exactly when it is
  not empty, has no white space at either end, is not of a \<open>git@\<close> form, has no \<open>http://\<close>
  or \<open>https://\<close> prefix, and ends neither in \<open>.git\<close> nor in a slash. Each rewriting step is
  applied once, and the first matching rule wins, so a result can still have any of
  these. White space is the white space of \<open>trim\<close>, the no-break space included; the
  input is a string of characters below \<open>U+0100\<close>.
\<close>

theorem normalize_fixed_point_iff:
  assumes "normalizeRepoUrl x = Some y"
  shows "normalizeRepoUrl y = Some y \<longleftrightarrow>
           y \<noteq> [] \<and> \<not> isWhiteSpace (hd y) \<and> \<not> isWhiteSpace (last y)
           \<and> azureMatch y = None \<and> sshMatch y = None
           \<and> \<not> startsWith ''http://'' y \<and> \<not> startsWith ''https://'' y
           \<and> \<not> endsWith ''.git'' y \<and> last y \<noteq> CHR ''/''"
    (is "?L \<longleftrightarrow> ?R")
proof
  assume R: ?R
  from assms have low: "toLowerCase y = y" by (rule lower_result)
  from R have tr: "trim y = y" by (intro trim_id) simp_all
  from R have s1: "stripScheme y = y" by (simp add: stripScheme_def)
  from R have s2: "stripGit y = y" by (simp add: stripGit_id)
  from R have s3: "stripSlashes y = y"
    using stripSlashes_replicate [of y 0] by simp
  from R show ?L
    by (simp add: normalizeRepoUrl_def tr s1 s2 s3 low)
next
  assume L: ?L
  then have ne: "y \<noteq> []" by (auto simp: normalizeRepoUrl_def)
  let ?u = "trim y"
  have az: "azureMatch ?u = None"
  proof (cases "azureMatch ?u")
    case (Some g)
    with L ne have "y = stripGit (toLowerCase (''dev.azure.com/'' @ g))"
      by (simp add: normalizeRepoUrl_def)
    then have "length y \<le> length g + 14"
      using length_stripGit [of "toLowerCase (''dev.azure.com/'' @ g)"]
      by (simp add: length_toLowerCase)
    moreover have "length g + 25 \<le> length y"
      using azureMatch_length [OF Some] length_trim [of y] by linarith
    ultimately show ?thesis by linarith
  qed simp
  have ssh: "sshMatch ?u = None"
  proof (cases "sshMatch ?u")
    case (Some hg)
    obtain h g where hg: "hg = (h, g)" by (cases hg)
    with L ne az Some have "y = stripGit (toLowerCase (h @ ''/'' @ g))"
      by (simp add: normalizeRepoUrl_def)
    then have "length y \<le> length h + length g + 1"
      using length_stripGit [of "toLowerCase (h @ ''/'' @ g)"]
      by (simp add: length_toLowerCase)
    moreover have "length h + length g + 5 \<le> length y"
      using sshMatch_length [OF Some [unfolded hg]] length_trim [of y] by linarith
    ultimately show ?thesis by linarith
  qed simp
  from L ne az ssh have y: "y = toLowerCase (stripSlashes (stripGit (stripScheme ?u)))"
    by (simp add: normalizeRepoUrl_def)
  have l1: "length (stripSlashes (stripGit (stripScheme ?u))) = length y"
    using arg_cong [OF y, of length] by (simp add: length_toLowerCase)
  have c1: "length (stripSlashes (stripGit (stripScheme ?u))) \<le> length (stripGit (stripScheme ?u))"
    by (rule length_stripSlashes)
  have c2: "length (stripGit (stripScheme ?u)) \<le> length (stripScheme ?u)"
    by (rule length_stripGit)
  have c3: "length (stripScheme ?u) \<le> length ?u" by (rule length_stripScheme)
  have c4: "length ?u \<le> length y" by (rule length_trim)
  from l1 c1 c2 c3 c4 have e4: "length ?u = length y" by linarith
  then have tr: "trim y = y" by (rule trim_length_eq)
  from l1 c1 c2 c3 c4 have e3: "length (stripScheme y) = length y" by (simp add: tr)
  then have sc: "\<not> startsWith ''http://'' y \<and> \<not> startsWith ''https://'' y"
    by (rule stripScheme_length_eq)
  then have s1: "stripScheme y = y" by (simp add: stripScheme_def)
  from l1 c1 c2 c3 c4 have e2: "length (stripGit y) = length y" by (simp add: tr s1)
  then have g: "\<not> endsWith ''.git'' y" by (rule stripGit_length_eq)
  then have s2: "stripGit y = y" by (rule stripGit_id)
  from l1 have "length (stripSlashes y) = length y" by (simp add: tr s1 s2)
  then have sl: "last y \<noteq> CHR ''/''" using ne by (rule stripSlashes_length_eq)
  from trim_fixed [OF ne tr] az ssh sc g sl ne show ?R by (simp add: tr)
qed

theorem normalize_fixed_point_iff_witness:
  "normalizeRepoUrl ''https://github.com/DataDog/web-ui.git'' = Some ''github.com/datadog/web-ui''
   \<and> normalizeRepoUrl ''github.com/datadog/web-ui'' = Some ''github.com/datadog/web-ui''"
proof -
  let ?y = "''github.com/datadog/web-ui''"
  have x: "normalizeRepoUrl ''https://github.com/DataDog/web-ui.git'' = Some ?y" by code_simp
  have "?y \<noteq> []" by simp
  moreover have "\<not> isWhiteSpace (hd ?y)" by code_simp
  moreover have "\<not> isWhiteSpace (last ?y)" by code_simp
  moreover have "azureMatch ?y = None" by code_simp
  moreover have "sshMatch ?y = None" by code_simp
  moreover have "\<not> startsWith ''http://'' ?y" by code_simp
  moreover have "\<not> startsWith ''https://'' ?y" by code_simp
  moreover have "\<not> endsWith ''.git'' ?y" by code_simp
  moreover have "last ?y \<noteq> CHR ''/''" by code_simp
  ultimately have "normalizeRepoUrl ?y = Some ?y"
    using normalize_fixed_point_iff [OF x] by blast
  with x show ?thesis by blast
qed

text \<open>
  A result that ends in a no-break space is not a fixed point: the input \<open>a\<close>, no-break
  space, slash loses the slash in the first pass and the space in the second.
\<close>

lemma fixed_point_no_break_space:
  "normalizeRepoUrl (''a'' @ [CHR 0xA0] @ ''/'') = Some (''a'' @ [CHR 0xA0])
   \<and> normalizeRepoUrl (''a'' @ [CHR 0xA0]) = Some ''a''"
proof
  show "normalizeRepoUrl (''a'' @ [CHR 0xA0] @ ''/'') = Some (''a'' @ [CHR 0xA0])" by code_simp
  show "normalizeRepoUrl (''a'' @ [CHR 0xA0]) = Some ''a''" by code_simp
qed

text \<open>
  An \<open>https\<close> URL whose remainder has the SSH shape: the first pass removes the scheme, the
  second pass reads the result as an SSH form.
\<close>

theorem idempotence_counterexample:
  "normalizeRepoUrl ''https://git@github.com:foo/bar'' = Some ''git@github.com:foo/bar''
   \<and> normalizeRepoUrl ''git@github.com:foo/bar'' = Some ''github.com/foo/bar''"
proof
  show "normalizeRepoUrl ''https://git@github.com:foo/bar'' = Some ''git@github.com:foo/bar''"
    by code_simp
  show "normalizeRepoUrl ''git@github.com:foo/bar'' = Some ''github.com/foo/bar''"
    by code_simp
qed

subsection \<open>The scan\<close>

lemma truthy_Some: "truthy (Some p) \<longleftrightarrow> p \<noteq> []"
  by (simp add: truthy_def)

lemma truthy_None: "\<not> truthy None"
  by (simp add: truthy_def)

lemma posixNormalize_nonempty: "posixNormalize p \<noteq> []"
  by (simp add: posixNormalize_def Let_def)

lemma pathJoin_nonempty: "pathJoin dir name \<noteq> []"
  by (simp add: pathJoin_def posixNormalize_nonempty)

lemma walk_sound:
  "walkDir w dir rn nu depth M = Some p \<Longrightarrow>
     \<exists>names. repoAt w rn nu dir names \<and> p = foldl pathJoin dir names
              \<and> depth + int (length names) \<le> M + 1"
  "readdir w dir = Some all \<Longrightarrow> set es \<subseteq> set all \<Longrightarrow> depth \<le> M \<Longrightarrow>
   walkEntries w dir es rn nu depth M = Some p \<Longrightarrow>
     \<exists>names. repoAt w rn nu dir names \<and> p = foldl pathJoin dir names
              \<and> depth + int (length names) \<le> M + 1"
proof (induction w dir rn nu depth M and w dir es rn nu depth M arbitrary: p and p all
       rule: walkDir_walkEntries.induct)
  case (1 w dir repoName normalizedUrl depth maxDepth)
  from "1.prems" have d: "depth \<le> maxDepth"
    by (simp add: walkDir.simps split: if_splits)
  from "1.prems" d obtain entries where r: "readdir w dir = Some entries"
    and e: "walkEntries w dir entries repoName normalizedUrl depth maxDepth = Some p"
    by (auto simp: walkDir.simps split: option.splits)
  from d have nd: "\<not> maxDepth < depth" by simp
  show ?case
    using "1.IH" [OF nd r r _ d e] by simp
next
  case (2 w dir repoName normalizedUrl depth maxDepth)
  then show ?case by simp
next
  case (3 w dir entry rest repoName normalizedUrl depth maxDepth)
  obtain n isDir where entry: "entry = (n, isDir)" by (cases entry)
  from "3.prems"(2) have sub: "set rest \<subseteq> set all" and mem: "entry \<in> set all" by auto
  show ?case
  proof (cases "\<not> isDir")
    case True
    with "3.prems" entry have "walkEntries w dir rest repoName normalizedUrl depth maxDepth = Some p"
      by simp
    from "3.IH"(1) [OF _ "3.prems"(1) sub "3.prems"(3) this] True entry show ?thesis by simp
  next
    case False
    then have isDir: "isDir" by simp
    show ?thesis
    proof (cases "n \<in> SKIP_DIRS")
      case True
      with "3.prems" entry isDir
      have "walkEntries w dir rest repoName normalizedUrl depth maxDepth = Some p" by simp
      from "3.IH"(2) [OF _ _ "3.prems"(1) sub "3.prems"(3) this] True entry isDir
      show ?thesis by simp
    next
      case notSkip: False
      show ?thesis
      proof (cases "isMatch w repoName normalizedUrl dir n")
        case True
        with "3.prems" entry isDir notSkip have p: "p = pathJoin dir n" by simp
        have "repoAt w repoName normalizedUrl dir [n]"
          using "3.prems"(1) mem entry isDir notSkip True by simp
        moreover have "p = foldl pathJoin dir [n]" using p by simp
        moreover have "depth + int (length [n]) \<le> maxDepth + 1" using "3.prems"(3) by simp
        ultimately show ?thesis by blast
      next
        case noMatch: False
        let ?sub = "walkDir w (pathJoin dir n) repoName normalizedUrl (depth + 1) maxDepth"
        show ?thesis
        proof (cases "truthy ?sub")
          case True
          with "3.prems" entry isDir notSkip noMatch have s: "?sub = Some p" by simp
          from "3.IH"(3) [of p] entry isDir notSkip noMatch s
          obtain names where rn: "repoAt w repoName normalizedUrl (pathJoin dir n) names"
            and pn: "p = foldl pathJoin (pathJoin dir n) names"
            and dn: "depth + 1 + int (length names) \<le> maxDepth + 1"
            by auto
          from rn have ne: "names \<noteq> []" by (cases names) auto
          have "repoAt w repoName normalizedUrl dir (n # names)"
            using "3.prems"(1) mem entry isDir notSkip rn ne by simp
          moreover have "p = foldl pathJoin dir (n # names)" using pn by simp
          moreover have "depth + int (length (n # names)) \<le> maxDepth + 1" using dn by simp
          ultimately show ?thesis by blast
        next
          case False
          with "3.prems" entry isDir notSkip noMatch
          have "walkEntries w dir rest repoName normalizedUrl depth maxDepth = Some p" by simp
          from "3.IH"(5) [OF _ _ _ _ "3.prems"(1) sub "3.prems"(3) this]
            entry isDir notSkip noMatch False
          show ?thesis by simp
        qed
      qed
    qed
  qed
qed

lemma foldl_pathJoin_nonempty: "names \<noteq> [] \<Longrightarrow> foldl pathJoin dir names \<noteq> []"
proof -
  assume "names \<noteq> []"
  then have "names = butlast names @ [last names]" by simp
  then have "foldl pathJoin dir names
             = pathJoin (foldl pathJoin dir (butlast names)) (last names)"
    by (metis foldl_Cons foldl_Nil foldl_append)
  then show ?thesis by (simp add: pathJoin_nonempty)
qed

lemma repoAt_names:
  "repoAt w rn nu dir names \<Longrightarrow> names \<noteq> [] \<and> (\<forall>n\<in>set names. n \<notin> SKIP_DIRS)"
  by (induction names arbitrary: dir) (auto split: if_splits)

lemma walkDir_truthy:
  assumes "walkDir w dir rn nu depth M = Some p"
  shows "truthy (Some p)"
proof -
  from walk_sound(1) [OF assms] obtain names where
    "repoAt w rn nu dir names" and p: "p = foldl pathJoin dir names" by blast
  then have "names \<noteq> []" using repoAt_names by blast
  then have "p \<noteq> []" unfolding p by (rule foldl_pathJoin_nonempty)
  then show ?thesis by (simp add: truthy_def)
qed

lemma walkDir_truthy_iff: "truthy (walkDir w dir rn nu depth M) \<longleftrightarrow> walkDir w dir rn nu depth M \<noteq> None"
  using walkDir_truthy [of w dir rn nu depth M] by (cases "walkDir w dir rn nu depth M") (auto simp: truthy_def)

lemma walkEntries_finds:
  assumes "(n, True) \<in> set es" "n \<notin> SKIP_DIRS"
    and "isMatch w rn nu dir n \<or> walkDir w (pathJoin dir n) rn nu (depth + 1) M \<noteq> None"
  shows "walkEntries w dir es rn nu depth M \<noteq> None"
  using assms(1)
proof (induction es)
  case Nil
  then show ?case by simp
next
  case (Cons e es)
  show ?case
  proof (cases "e = (n, True)")
    case True
    then show ?thesis
      using assms(2,3) by (auto simp: walkDir_truthy_iff)
  next
    case False
    with Cons.prems have "(n, True) \<in> set es" by simp
    from Cons.IH [OF this] show ?thesis
      by (auto simp: walkDir_truthy_iff)
  qed
qed

lemma walk_complete:
  "repoAt w rn nu dir names \<Longrightarrow> depth + int (length names) \<le> M + 1 \<Longrightarrow>
   walkDir w dir rn nu depth M \<noteq> None"
proof (induction names arbitrary: dir depth)
  case Nil
  then show ?case by simp
next
  case (Cons n ns)
  from Cons.prems(2) have d: "\<not> M < depth" by simp
  from Cons.prems(1) obtain es where r: "readdir w dir = Some es" and mem: "(n, True) \<in> set es"
    and skip: "n \<notin> SKIP_DIRS"
    by (auto split: option.splits)
  have "isMatch w rn nu dir n \<or> walkDir w (pathJoin dir n) rn nu (depth + 1) M \<noteq> None"
  proof (cases "ns = []")
    case True
    with Cons.prems(1) show ?thesis by simp
  next
    case False
    with Cons.prems(1) have "repoAt w rn nu (pathJoin dir n) ns" by simp
    moreover from Cons.prems(2) have "depth + 1 + int (length ns) \<le> M + 1" by simp
    ultimately show ?thesis using Cons.IH by blast
  qed
  from walkEntries_finds [OF mem skip this] show ?case
    using d r by (simp add: walkDir.simps)
qed

lemma scanRoots_sound:
  "scanRoots w rn nu roots M = Some p \<Longrightarrow>
   \<exists>root\<in>set roots. walkDir w (expandHome w root) rn nu 0 M = Some p"
  by (induction roots) (auto split: if_splits)

lemma isMatch_cong:
  assumes "pathExists w' = pathExists w" "execSync w' = execSync w"
  shows "isMatch w' rn nu dir n = isMatch w rn nu dir n"
  using assms by (simp add: isMatch_def existsSync_def getRepoRemotes_def)

lemma walk_cong:
  assumes "readdir w' = readdir w" "pathExists w' = pathExists w" "execSync w' = execSync w"
  shows "walkDir w' dir rn nu depth M = walkDir w dir rn nu depth M"
    and "walkEntries w' dir es rn nu depth M = walkEntries w dir es rn nu depth M"
  using assms
proof (induction w dir rn nu depth M and w dir es rn nu depth M
       rule: walkDir_walkEntries.induct)
  case (1 w dir repoName normalizedUrl depth maxDepth)
  then show ?case
    by (cases "readdir w dir") (simp_all add: walkDir.simps [of w'] walkDir.simps [of w])
next
  case (2 w dir repoName normalizedUrl depth maxDepth)
  then show ?case by simp
next
  case (3 w dir entry rest repoName normalizedUrl depth maxDepth)
  note eqs = "3.prems"
  have m: "isMatch w' repoName normalizedUrl dir (fst entry)
           = isMatch w repoName normalizedUrl dir (fst entry)"
    using eqs(2,3) by (rule isMatch_cong)
  show ?case
  proof (cases "snd entry \<and> fst entry \<notin> SKIP_DIRS
                \<and> \<not> isMatch w repoName normalizedUrl dir (fst entry)")
    case True
    then have g: "\<not> \<not> snd entry" "fst entry \<notin> SKIP_DIRS"
      "\<not> isMatch w repoName normalizedUrl dir (fst entry)" by simp_all
    have sub: "walkDir w' (pathJoin dir (fst entry)) repoName normalizedUrl (depth + 1) maxDepth
               = walkDir w (pathJoin dir (fst entry)) repoName normalizedUrl (depth + 1) maxDepth"
      using "3.IH"(3) [OF g eqs] .
    show ?thesis
    proof (cases "truthy (walkDir w (pathJoin dir (fst entry)) repoName normalizedUrl
                            (depth + 1) maxDepth)")
      case t: True
      with g m sub show ?thesis by simp
    next
      case f: False
      from "3.IH"(5) [OF g f eqs] g m sub f show ?thesis by simp
    qed
  next
    case False
    then consider "\<not> snd entry" | "snd entry" "fst entry \<in> SKIP_DIRS"
      | "snd entry" "fst entry \<notin> SKIP_DIRS" "isMatch w repoName normalizedUrl dir (fst entry)"
      by blast
    then show ?thesis
    proof cases
      case 1
      from "3.IH"(1) [OF 1 eqs] 1 show ?thesis by simp
    next
      case 2
      from 2(1) have "\<not> \<not> snd entry" by simp
      from "3.IH"(2) [OF this 2(2) eqs] 2 show ?thesis by simp
    next
      case 3
      with m show ?thesis by simp
    qed
  qed
qed

lemma scanRoots_cong:
  assumes "readdir w' = readdir w" "pathExists w' = pathExists w" "execSync w' = execSync w"
    "HOME w' = HOME w"
  shows "scanRoots w' rn nu roots M = scanRoots w rn nu roots M"
proof -
  have "expandHome w' raw = expandHome w raw" for raw
    using assms(4) by (cases raw) (simp_all add: expandHome_def)
  then show ?thesis
    by (induction roots) (simp_all add: walk_cong(1) [OF assms(1-3)])
qed

lemma scanForRepo_cong:
  assumes "readdir w' = readdir w" "pathExists w' = pathExists w" "execSync w' = execSync w"
    "HOME w' = HOME w"
  shows "scanForRepo w' nu roots M = scanForRepo w nu roots M"
  by (cases "extractRepoName nu") (simp_all add: scanForRepo_def scanRoots_cong [OF assms])

lemma depthWorld_readdir:
  "readdir depthWorld ''/s'' = Some [(''a'', True)]"
  "readdir depthWorld (pathJoin ''/s'' ''a'') = Some [(''b'', True)]"
  "readdir depthWorld (pathJoin (pathJoin ''/s'' ''a'') ''b'') = Some [(''my-repo'', True)]"
  "readdir depthWorld (pathJoin (pathJoin (pathJoin ''/s'' ''a'') ''b'') ''my-repo'') = Some [(''.git'', True)]"
  by code_simp+

lemma depthWorld_only:
  assumes "repoAt depthWorld ''my-repo'' nu ''/s'' ns"
  shows "ns = [''a'', ''b'', ''my-repo'']"
proof -
  have git: "''.git'' \<in> SKIP_DIRS" by (simp add: SKIP_DIRS_def)
  have na: "\<not> isMatch depthWorld ''my-repo'' nu d ''a''" for d
    by (simp add: isMatch_def toLowerCase_def)
  have nb: "\<not> isMatch depthWorld ''my-repo'' nu d ''b''" for d
    by (simp add: isMatch_def toLowerCase_def)
  from assms obtain n1 r1 where ns: "ns = n1 # r1" by (cases ns) auto
  with assms have n1: "n1 = ''a''" by (simp add: depthWorld_readdir)
  from assms ns n1 na obtain n2 r2 where r1: "r1 = n2 # r2"
    by (cases r1) (auto simp: depthWorld_readdir)
  with assms ns n1 have n2: "n2 = ''b''" by (simp add: depthWorld_readdir)
  from assms ns n1 r1 n2 nb obtain n3 r3 where r2: "r2 = n3 # r3"
    by (cases r2) (auto simp: depthWorld_readdir)
  with assms ns n1 r1 n2 have n3: "n3 = ''my-repo''" by (simp add: depthWorld_readdir)
  have "r3 = []"
  proof (cases r3)
    case (Cons n4 r4)
    with assms ns n1 r1 n2 r2 n3 git show ?thesis by (auto simp: depthWorld_readdir)
  qed simp
  with ns n1 r1 n2 r2 n3 show ?thesis by simp
qed

subsection \<open>Paths of plain names\<close>

lemma splitOn_nonempty: "splitOn c s \<noteq> []"
  by (induction s) (auto split: list.splits)

lemma joinSegments_Cons: "ss \<noteq> [] \<Longrightarrow> joinSegments (s # ss) = s @ CHR ''/'' # joinSegments ss"
  by (cases ss) simp_all

lemma joinSegments_splitOn: "joinSegments (splitOn (CHR ''/'') s) = s"
proof (induction s)
  case Nil
  then show ?case by simp
next
  case (Cons x xs)
  obtain f fs where f: "splitOn (CHR ''/'') xs = f # fs"
    using splitOn_nonempty [of "CHR ''/''" xs] by (cases "splitOn (CHR ''/'') xs") auto
  show ?case
  proof (cases "x = CHR ''/''")
    case True
    then show ?thesis
      using Cons.IH splitOn_nonempty [of "CHR ''/''" xs] by (simp add: joinSegments_Cons)
  next
    case False
    then show ?thesis using Cons.IH f by (cases fs) simp_all
  qed
qed

lemma splitOn_no_sep: "c \<notin> set s \<Longrightarrow> splitOn c s = [s]"
  by (induction s) auto

lemma splitOn_append_sep: "splitOn c (a @ c # b) = splitOn c a @ splitOn c b"
proof (induction a)
  case Nil
  then show ?case by simp
next
  case (Cons x xs)
  obtain f fs where f: "splitOn c xs = f # fs"
    using splitOn_nonempty [of c xs] by (cases "splitOn c xs") auto
  with Cons.IH show ?case by simp
qed

lemma normalizeString_plain_acc:
  assumes "list_all plainName segs"
  shows "foldl (\<lambda>res seg.
              if seg = [] \<or> seg = ''.'' then res
              else if seg = ''..''
                then (if res \<noteq> [] \<and> last res \<noteq> ''..'' then butlast res
                      else if b then res @ [''..''] else res)
              else res @ [seg]) acc segs = acc @ segs"
  using assms by (induction segs arbitrary: acc) (simp_all add: plainName_def)

lemma normalizeString_plain:
  "list_all plainName segs \<Longrightarrow> normalizeString b ([] # segs) = segs"
  unfolding normalizeString_def using normalizeString_plain_acc [of segs b "[]"] by simp

lemma joinSegments_snoc:
  "segs \<noteq> [] \<Longrightarrow> joinSegments (segs @ [n]) = joinSegments segs @ CHR ''/'' # n"
  by (induction segs rule: joinSegments.induct) simp_all

lemma joinSegments_nonempty: "list_all plainName segs \<Longrightarrow> segs \<noteq> [] \<Longrightarrow> joinSegments segs \<noteq> []"
  by (cases segs rule: joinSegments.cases) (simp_all add: plainName_def)

lemma normalPath_segments:
  assumes "normalPath p"
  obtains segs where "splitOn (CHR ''/'') p = [] # segs" "segs \<noteq> []" "list_all plainName segs"
    "p = CHR ''/'' # joinSegments segs"
proof -
  from assms obtain segs where s: "splitOn (CHR ''/'') p = [] # segs" "segs \<noteq> []"
    "list_all plainName segs"
    by (auto simp: normalPath_def split: list.splits)
  have "p = joinSegments ([] # segs)" using joinSegments_splitOn [of p] s(1) by simp
  then have "p = CHR ''/'' # joinSegments segs" using s(2) by (simp add: joinSegments_Cons)
  with s that show ?thesis by blast
qed

text \<open>Below a path in normal form, \<open>path.join\<close> with a plain name appends a slash and the name.\<close>

lemma pathJoin_plain:
  assumes "normalPath p" "plainName n"
  shows "pathJoin p n = p @ CHR ''/'' # n" and "normalPath (p @ CHR ''/'' # n)"
proof -
  from assms(1) obtain segs where s: "splitOn (CHR ''/'') p = [] # segs" "segs \<noteq> []"
    "list_all plainName segs" and p: "p = CHR ''/'' # joinSegments segs"
    by (rule normalPath_segments)
  from assms(2) have n: "n \<noteq> []" "CHR ''/'' \<notin> set n" by (simp_all add: plainName_def)
  let ?q = "p @ CHR ''/'' # n"
  have sq: "splitOn (CHR ''/'') ?q = [] # (segs @ [n])"
    using s(1) by (simp add: splitOn_append_sep splitOn_no_sep [OF n(2)])
  have all: "list_all plainName (segs @ [n])" using s(3) assms(2) by simp
  show "normalPath ?q" using sq all by (simp add: normalPath_def)
  have hd: "hd ?q = CHR ''/''" using p by simp
  have "last n \<noteq> CHR ''/''" using last_in_set [OF n(1)] n(2) by metis
  then have lst: "last ?q \<noteq> CHR ''/''" using n(1) by simp
  have body: "joinSegments (normalizeString b (splitOn (CHR ''/'') ?q))
              = joinSegments segs @ CHR ''/'' # n" for b
    unfolding sq normalizeString_plain [OF all] using s(2) by (rule joinSegments_snoc)
  have "posixNormalize ?q = CHR ''/'' # joinSegments segs @ CHR ''/'' # n"
    using hd lst by (simp add: posixNormalize_def Let_def body)
  also have "\<dots> = ?q" using p by simp
  finally have "posixNormalize ?q = ?q" .
  moreover have "p \<noteq> []" using p by simp
  ultimately show "pathJoin p n = ?q" using n(1) by (simp add: pathJoin_def)
qed

lemma foldl_pathJoin_plain:
  "normalPath p \<Longrightarrow> list_all plainName names \<Longrightarrow>
   foldl pathJoin p names = p @ concat (map ((#) (CHR ''/'')) names)"
proof (induction names arbitrary: p)
  case Nil
  then show ?case by simp
next
  case (Cons n ns)
  from Cons.prems have n: "plainName n" and ns: "list_all plainName ns" by simp_all
  from pathJoin_plain [OF Cons.prems(1) n] Cons.IH [OF _ ns] show ?case by simp
qed

lemma repoAt_listed:
  "repoAt w rn nu dir names \<Longrightarrow>
   \<forall>n\<in>set names. \<exists>d es. readdir w d = Some es \<and> (n, True) \<in> set es"
proof (induction names arbitrary: dir)
  case Nil
  then show ?case by simp
next
  case (Cons n ns)
  from Cons.prems obtain es where "readdir w dir = Some es" "(n, True) \<in> set es"
    by (auto split: option.splits)
  then have here: "\<exists>d es. readdir w d = Some es \<and> (n, True) \<in> set es" by blast
  show ?case
  proof (cases "ns = []")
    case True
    with here show ?thesis by simp
  next
    case False
    with Cons.prems have "repoAt w rn nu (pathJoin dir n) ns" by simp
    from Cons.IH [OF this] here show ?thesis by simp
  qed
qed

text \<open>
  In a file system that lists plain names, and for search roots that are absolute paths
  in normal form, what the scan returns is a root followed by one or more names, each
  after a slash, none of them in the skip set.
\<close>

lemma scan_result_below_root:
  assumes "scanForRepo w nu roots M = Some p"
    and roots: "\<forall>root\<in>set roots. normalPath (expandHome w root)"
    and plain: "\<forall>d es n. readdir w d = Some es \<longrightarrow> (n, True) \<in> set es \<longrightarrow> plainName n"
  shows "\<exists>root\<in>set roots. \<exists>names.
           p = expandHome w root @ concat (map ((#) (CHR ''/'')) names)
           \<and> names \<noteq> [] \<and> (\<forall>n\<in>set names. plainName n \<and> n \<notin> SKIP_DIRS)"
proof -
  from assms(1) obtain rn where "scanRoots w rn nu roots M = Some p"
    by (auto simp: scanForRepo_def split: option.splits if_splits)
  from scanRoots_sound [OF this] obtain root where root: "root \<in> set roots"
    and "walkDir w (expandHome w root) rn nu 0 M = Some p" by blast
  from walk_sound(1) [OF this(2)] obtain names where
    r: "repoAt w rn nu (expandHome w root) names"
    and p: "p = foldl pathJoin (expandHome w root) names" by blast
  from repoAt_listed [OF r] plain have pl: "\<forall>n\<in>set names. plainName n" by blast
  then have "list_all plainName names" by (simp add: list_all_iff)
  from foldl_pathJoin_plain [OF _ this, of "expandHome w root"] roots root p
  have "p = expandHome w root @ concat (map ((#) (CHR ''/'')) names)" by simp
  with repoAt_names [OF r] pl root show ?thesis by blast
qed

subsection \<open>Claims on the scan\<close>

text \<open>
  C3 (amended). The depth boundary is one descent further than the claim says. Let a
  repository that passes the test of the scan lie \<open>d\<close> descents below a search root
  (\<open>d\<close> is the length of \<open>names\<close>, at least 1), through directories that are listed and
  not skipped, and let it be the only such repository below that root. Then
  \<open>scanForRepo\<close> on that root returns it when \<open>maxDepth \<ge> d - 1\<close>, and returns \<open>null\<close> when
  \<open>maxDepth < d - 1\<close>: the directories at depth \<open>maxDepth + 1\<close> are the last ones checked for
  a name match, and are not listed themselves. What is returned is the path that
  \<open>path.join\<close> builds from the root, with \<open>~\<close> replaced, and the names in turn; for a
  root in normal form and plain names that is the root followed by the names, each
  after a slash (lemma \<open>foldl_pathJoin_plain\<close>).
\<close>

theorem scan_depth_boundary:
  assumes name: "extractRepoName normalizedUrl = Some repoName" "repoName \<noteq> []"
    and repo: "repoAt w repoName normalizedUrl (expandHome w root) names"
    and only: "\<forall>ns. repoAt w repoName normalizedUrl (expandHome w root) ns \<longrightarrow> ns = names"
  shows "scanForRepo w normalizedUrl [root] maxDepth
         = (if int (length names) \<le> maxDepth + 1
            then Some (foldl pathJoin (expandHome w root) names)
            else None)"
proof -
  let ?walk = "walkDir w (expandHome w root) repoName normalizedUrl 0 maxDepth"
  have scan: "scanForRepo w normalizedUrl [root] maxDepth = ?walk"
    using name walkDir_truthy_iff [of w "expandHome w root" repoName normalizedUrl 0 maxDepth]
    by (cases ?walk) (simp_all add: scanForRepo_def)
  show ?thesis
  proof (cases "int (length names) \<le> maxDepth + 1")
    case True
    then have "?walk \<noteq> None" using walk_complete [OF repo, of 0 maxDepth] by simp
    then obtain p where p: "?walk = Some p" by blast
    from walk_sound(1) [OF p] only have "p = foldl pathJoin (expandHome w root) names" by blast
    with p scan True show ?thesis by simp
  next
    case False
    have "?walk = None"
    proof (cases ?walk)
      case (Some p)
      from walk_sound(1) [OF Some] only have "0 + int (length names) \<le> maxDepth + 1" by blast
      with False show ?thesis by simp
    qed simp
    with scan False show ?thesis by simp
  qed
qed

text \<open>
  The scenario of the repository's own test: the checkout \<open>/s/a/b/my-repo\<close>, three descents
  below \<open>/s\<close>, is found with \<open>maxDepth = 2\<close> and missed with \<open>maxDepth = 1\<close>.
\<close>

theorem scan_depth_boundary_witness:
  "extractRepoName ''github.com/org/my-repo'' = Some ''my-repo''
   \<and> repoAt depthWorld ''my-repo'' ''github.com/org/my-repo'' ''/s'' [''a'', ''b'', ''my-repo'']
   \<and> foldl pathJoin ''/s'' [''a'', ''b'', ''my-repo''] = ''/s/a/b/my-repo''
   \<and> scanForRepo depthWorld ''github.com/org/my-repo'' [''/s''] 2 = Some ''/s/a/b/my-repo''
   \<and> scanForRepo depthWorld ''github.com/org/my-repo'' [''/s''] 1 = None"
proof -
  let ?nu = "''github.com/org/my-repo''"
  let ?names = "[''a'', ''b'', ''my-repo'']"
  have n: "extractRepoName ?nu = Some ''my-repo''" by code_simp
  have e: "expandHome depthWorld ''/s'' = ''/s''" by (simp add: expandHome_def)
  have r: "repoAt depthWorld ''my-repo'' ?nu ''/s'' ?names" by code_simp
  have r': "repoAt depthWorld ''my-repo'' ?nu (expandHome depthWorld ''/s'') ?names"
    unfolding e by (rule r)
  have only: "\<forall>ns. repoAt depthWorld ''my-repo'' ?nu (expandHome depthWorld ''/s'') ns
                \<longrightarrow> ns = ?names"
    unfolding e using depthWorld_only by blast
  have ne: "''my-repo'' \<noteq> []" by simp
  have j: "foldl pathJoin ''/s'' ?names = ''/s/a/b/my-repo''" by code_simp
  have two: "scanForRepo depthWorld ?nu [''/s''] 2 = Some ''/s/a/b/my-repo''"
    using scan_depth_boundary [OF n ne r' only, of 2] unfolding e j by simp
  have one: "scanForRepo depthWorld ?nu [''/s''] 1 = None"
    using scan_depth_boundary [OF n ne r' only, of 1] unfolding e j by simp
  from n r j two one show ?thesis by blast
qed

text \<open>
  The claim as stated: a repository at \<open>d = 3\<close> descents is not found when \<open>maxDepth = 2 < d\<close>.
  It is found.
\<close>

theorem scan_depth_counterexample:
  "repoAt depthWorld ''my-repo'' ''github.com/org/my-repo'' ''/s'' [''a'', ''b'', ''my-repo'']
   \<and> (2::int) < int (length [''a'', ''b'', ''my-repo''])
   \<and> scanForRepo depthWorld ''github.com/org/my-repo'' [''/s''] 2 = Some ''/s/a/b/my-repo''"
proof (intro conjI)
  show "repoAt depthWorld ''my-repo'' ''github.com/org/my-repo'' ''/s'' [''a'', ''b'', ''my-repo'']"
    by code_simp
  show "(2::int) < int (length [''a'', ''b'', ''my-repo''])" by simp
  show "scanForRepo depthWorld ''github.com/org/my-repo'' [''/s''] 2 = Some ''/s/a/b/my-repo''"
    by code_simp
qed

text \<open>
  A search root written with a slash at its end gives the same path: \<open>path.join\<close> does
  not double the slash.
\<close>

lemma scan_root_with_slash:
  "scanForRepo depthWorld ''github.com/org/my-repo'' [''/s/''] 2 = Some ''/s/a/b/my-repo''"
  by code_simp

text \<open>
  C8 (amended). Whatever \<open>scanForRepo\<close> returns was reached from one of the search roots
  by one or more descents, each into an entry of the listing of the directory before
  it, and none of these entries has a name in the skip set: below a search root, no
  directory with a skipped name is entered or returned, at any depth. The path
  returned is the one \<open>path.join\<close> builds from the root, with \<open>~\<close> replaced, and these
  names in turn; in a file system that lists plain names, and for roots in normal form,
  that is the root followed by the names, each after a slash (lemma
  \<open>scan_result_below_root\<close>). The search roots themselves are taken as configured,
  whatever their names.
\<close>

theorem scan_skips_below_root:
  assumes "scanForRepo w normalizedUrl searchPaths maxDepth = Some p"
  shows "\<exists>root\<in>set searchPaths. \<exists>repoName names.
           extractRepoName normalizedUrl = Some repoName
           \<and> repoAt w repoName normalizedUrl (expandHome w root) names
           \<and> p = foldl pathJoin (expandHome w root) names
           \<and> (\<forall>n\<in>set names. n \<notin> SKIP_DIRS)"
proof -
  from assms obtain rn where rn: "extractRepoName normalizedUrl = Some rn"
    and "scanRoots w rn normalizedUrl searchPaths maxDepth = Some p"
    by (auto simp: scanForRepo_def split: option.splits if_splits)
  from scanRoots_sound [OF this(2)] obtain root where root: "root \<in> set searchPaths"
    and "walkDir w (expandHome w root) rn normalizedUrl 0 maxDepth = Some p" by blast
  from walk_sound(1) [OF this(2)] obtain names where
    "repoAt w rn normalizedUrl (expandHome w root) names"
    "p = foldl pathJoin (expandHome w root) names" by blast
  with repoAt_names [OF this(1)] root rn show ?thesis by blast
qed

text \<open>
  With the root \<open>/w\<close> the checkout inside \<open>node_modules\<close> is not found, as in the repository's
  test; what is found in \<open>depthWorld\<close> was reached through entries outside the skip set.
\<close>

theorem scan_skips_below_root_witness:
  "scanForRepo depthWorld ''github.com/org/my-repo'' [''/s''] 2 = Some ''/s/a/b/my-repo''
   \<and> (\<exists>names. repoAt depthWorld ''my-repo'' ''github.com/org/my-repo'' ''/s'' names
               \<and> ''/s/a/b/my-repo'' = foldl pathJoin ''/s'' names
               \<and> set names \<inter> SKIP_DIRS = {})
   \<and> scanForRepo skipWorld ''github.com/org/my-lib'' [''/w''] 4 = None"
proof -
  have s: "scanForRepo depthWorld ''github.com/org/my-repo'' [''/s''] 2 = Some ''/s/a/b/my-repo''"
    by code_simp
  have e: "expandHome depthWorld ''/s'' = ''/s''" by (simp add: expandHome_def)
  have x: "extractRepoName ''github.com/org/my-repo'' = Some ''my-repo''" by code_simp
  from scan_skips_below_root [OF s]
  have "\<exists>repoName names.
           extractRepoName ''github.com/org/my-repo'' = Some repoName
           \<and> repoAt depthWorld repoName ''github.com/org/my-repo''
                (expandHome depthWorld ''/s'') names
           \<and> ''/s/a/b/my-repo'' = foldl pathJoin (expandHome depthWorld ''/s'') names
           \<and> (\<forall>n\<in>set names. n \<notin> SKIP_DIRS)"
    by simp
  then obtain names where
    n: "repoAt depthWorld ''my-repo'' ''github.com/org/my-repo'' ''/s'' names"
       "''/s/a/b/my-repo'' = foldl pathJoin ''/s'' names" "\<forall>n\<in>set names. n \<notin> SKIP_DIRS"
    unfolding e x by auto
  from n(3) have "set names \<inter> SKIP_DIRS = {}" by blast
  with n(1,2) have "\<exists>names. repoAt depthWorld ''my-repo'' ''github.com/org/my-repo'' ''/s'' names
               \<and> ''/s/a/b/my-repo'' = foldl pathJoin ''/s'' names
               \<and> set names \<inter> SKIP_DIRS = {}"
    by blast
  moreover have "scanForRepo skipWorld ''github.com/org/my-lib'' [''/w''] 4 = None"
    by code_simp
  ultimately show ?thesis using s by blast
qed

text \<open>
  The claim as stated, for every list of search roots: with the root \<open>/w/node_modules\<close> the
  scan returns a path inside a directory called \<open>node_modules\<close>.
\<close>

theorem skip_set_counterexample:
  "scanForRepo skipWorld ''github.com/org/my-lib'' [''/w/node_modules''] 4
     = Some ''/w/node_modules/my-lib''
   \<and> ''node_modules'' \<in> SKIP_DIRS
   \<and> ''node_modules'' \<in> set (butlast (splitOn (CHR ''/'') ''/w/node_modules/my-lib''))"
proof (intro conjI)
  show "scanForRepo skipWorld ''github.com/org/my-lib'' [''/w/node_modules''] 4
          = Some ''/w/node_modules/my-lib''" by code_simp
  show "''node_modules'' \<in> SKIP_DIRS" by (simp add: SKIP_DIRS_def)
  show "''node_modules'' \<in> set (butlast (splitOn (CHR ''/'') ''/w/node_modules/my-lib''))"
    by code_simp
qed

subsection \<open>The cache and the entry point\<close>

lemma sameFiles_refl: "sameFiles w w"
  by (simp add: sameFiles_def)

lemma sameFiles_trans: "sameFiles w'' w' \<Longrightarrow> sameFiles w' w \<Longrightarrow> sameFiles w'' w"
  by (simp add: sameFiles_def)

lemma sameFiles_consoleLog: "sameFiles (consoleLog e w) w"
  by (simp add: sameFiles_def consoleLog_def)

lemma sameFiles_saveCache: "saveCache c w = (r, w') \<Longrightarrow> sameFiles w' w"
  by (auto simp: saveCache_def sameFiles_def split: if_splits)

lemma sameFiles_cacheStore: "cacheStore nu p w = (r, w') \<Longrightarrow> sameFiles w' w"
  by (cases "loadCache w") (auto simp: cacheStore_def sameFiles_refl dest: sameFiles_saveCache)

lemma sameFiles_cacheLookup:
  assumes "cacheLookup nu w = (r, w')"
  shows "sameFiles w' w"
proof -
  have "sameFiles (snd (cacheLookup nu w)) w"
    by (simp add: cacheLookup_def saveCache_def consoleLog_def sameFiles_def
             split: option.splits)
  with assms show ?thesis by simp
qed

lemma sameFiles_scan: "sameFiles w' w \<Longrightarrow> scanForRepo w' nu roots M = scanForRepo w nu roots M"
  by (rule scanForRepo_cong) (simp_all add: sameFiles_def)

lemma sameFiles_existsSync: "sameFiles w' w \<Longrightarrow> existsSync w' p = existsSync w p"
  by (simp add: sameFiles_def existsSync_def)

lemma sameFiles_remotes: "sameFiles w' w \<Longrightarrow> getRepoRemotes w' p = getRepoRemotes w p"
  by (simp add: sameFiles_def getRepoRemotes_def)

lemma sameFiles_config: "sameFiles w' w \<Longrightarrow> loadConfig w' = loadConfig w"
  by (simp add: sameFiles_def loadConfig_def)





text \<open>After a lookup that returned, the cache file holds an object.\<close>

lemma cacheLookup_returns:
  assumes "cacheLookup nu w = (Inr r, w')"
  shows "\<exists>c. loadCache w' = Some c"
proof (cases "loadCache w")
  case None
  with assms show ?thesis by (simp add: cacheLookup_def)
next
  case (Some c)
  show ?thesis
  proof (cases "cacheWritable w")
    case True
    with assms Some show ?thesis
      by (auto simp: cacheLookup_def saveCache_def consoleLog_def loadCache_def
               split: option.splits if_splits)
  next
    case False
    with assms Some show ?thesis
      by (auto simp: cacheLookup_def saveCache_def split: option.splits if_splits)
  qed
qed

lemma scanForRepo_nonempty: "scanForRepo w nu roots M = Some p \<Longrightarrow> p \<noteq> []"
proof -
  assume "scanForRepo w nu roots M = Some p"
  then obtain rn where "scanRoots w rn nu roots M = Some p"
    by (auto simp: scanForRepo_def split: option.splits if_splits)
  from scanRoots_sound [OF this] obtain root where
    "walkDir w (expandHome w root) rn nu 0 M = Some p" by blast
  from walkDir_truthy [OF this] show ?thesis by (simp add: truthy_def)
qed


lemma cacheStore_locked:
  "\<not> cacheWritable w \<Longrightarrow> loadCache w = Some c \<Longrightarrow> cacheStore nu p w = (Inl WriteFailed, w)"
  by (simp add: cacheStore_def saveCache_def)







lemma cacheLookup_absent:
  "loadCache w = Some c \<Longrightarrow> c nu = None \<Longrightarrow> nu \<notin> objectPrototypeKeys \<Longrightarrow>
   cacheLookup nu w = (Inr None, w)"
  by (simp add: cacheLookup_def)




subsection \<open>Claims on the cache and on the entry point\<close>

text \<open>
  C1. The round trip through the cache fails for a checkout whose path has an
  apostrophe. In \<open>quoteWorld\<close> the directory \<open>quoteRepo\<close> exists, has a \<open>.git\<close> entry, and git
  run on it prints the remote \<open>git@github.com:DataDog/web-ui.git\<close>, which normalizes to the
  identifier. \<open>cacheStore\<close> of the identifier with that path returns, and \<open>resolveRepo\<close> on
  the \<open>https\<close> form of the identifier then returns \<open>null\<close>: \<open>getRepoRemotes\<close> puts the path
  between two apostrophes without escaping it, the shell refuses the command line, the
  entry is taken for stale and removed, and the scan, which runs, meets the same
  failure at the same directory.
\<close>

theorem round_trip_violation:
  "normalizeRepoUrl ''https://github.com/DataDog/web-ui.git'' = Some ''github.com/datadog/web-ui''
   \<and> existsSync quoteWorld quoteRepo
   \<and> existsSync quoteWorld (pathJoin quoteRepo ''.git'')
   \<and> execSync quoteWorld (''git -C '' @ shellQuote quoteRepo @ '' remote -v'')
       = Some (remoteV ''git@github.com:DataDog/web-ui.git'')
   \<and> normalizeRepoUrl ''git@github.com:DataDog/web-ui.git'' = Some ''github.com/datadog/web-ui''
   \<and> execSync quoteWorld (remoteCommand quoteRepo) = None
   \<and> fst (cacheStore ''github.com/datadog/web-ui'' quoteRepo quoteWorld) = Inr ()
   \<and> fst (resolveRepo ''https://github.com/DataDog/web-ui.git''
             (snd (cacheStore ''github.com/datadog/web-ui'' quoteRepo quoteWorld)))
       = Inr None
   \<and> console (snd (resolveRepo ''https://github.com/DataDog/web-ui.git''
             (snd (cacheStore ''github.com/datadog/web-ui'' quoteRepo quoteWorld))))
       = [Resolving ''github.com/datadog/web-ui'', CacheStaleRemoteMismatch quoteRepo,
          Scanning [''~/dd''] 4, NotFound ''github.com/datadog/web-ui'']"
proof (intro conjI)
  show "normalizeRepoUrl ''https://github.com/DataDog/web-ui.git''
          = Some ''github.com/datadog/web-ui''"
    by code_simp
  show "existsSync quoteWorld quoteRepo" by code_simp
  show "existsSync quoteWorld (pathJoin quoteRepo ''.git'')" by code_simp
  show "execSync quoteWorld (''git -C '' @ shellQuote quoteRepo @ '' remote -v'')
          = Some (remoteV ''git@github.com:DataDog/web-ui.git'')"
    by code_simp
  show "normalizeRepoUrl ''git@github.com:DataDog/web-ui.git''
          = Some ''github.com/datadog/web-ui''"
    by code_simp
  show "execSync quoteWorld (remoteCommand quoteRepo) = None" by code_simp
  show "fst (cacheStore ''github.com/datadog/web-ui'' quoteRepo quoteWorld) = Inr ()"
    by code_simp
  show "fst (resolveRepo ''https://github.com/DataDog/web-ui.git''
               (snd (cacheStore ''github.com/datadog/web-ui'' quoteRepo quoteWorld)))
          = Inr None"
    by code_simp
  show "console (snd (resolveRepo ''https://github.com/DataDog/web-ui.git''
             (snd (cacheStore ''github.com/datadog/web-ui'' quoteRepo quoteWorld))))
       = [Resolving ''github.com/datadog/web-ui'', CacheStaleRemoteMismatch quoteRepo,
          Scanning [''~/dd''] 4, NotFound ''github.com/datadog/web-ui'']"
    by code_simp
qed

text \<open>
  The identifier \<open>__proto__\<close> is not stored at all: the assignment sets the prototype of
  the object, and the file is written without the entry.
\<close>

lemma proto_key_not_stored:
  "cacheStore ''__proto__'' ''/repos/cache-hit'' cacheWorld
     = (Inr (), cacheWorld\<lparr>cacheFile := Content Map.empty\<rparr>)"
  by (simp add: cacheStore_def saveCache_def loadCache_def cacheWorld_def emptyWorld_def)

text \<open>
  When the command line that \<open>getRepoRemotes\<close> builds does print the remotes, and the
  identifier is not \<open>__proto__\<close>, the round trip holds: after \<open>cacheStore(X, P)\<close> has
  returned, \<open>resolveRepo\<close> on any raw input that normalizes to \<open>X\<close> returns \<open>P\<close>, and the only
  lines it prints are \<open>Resolving\<close> and \<open>Cache hit\<close>; the line \<open>Scanning\<close>, which precedes every
  scan, is not among them.
\<close>

lemma round_trip_when_remotes_read:
  assumes url: "normalizeRepoUrl raw = Some X" "X \<noteq> []" "X \<noteq> ''__proto__''"
    and dir: "existsSync w P"
    and remote: "Some X \<in> set (map normalizeRepoUrl (getRepoRemotes w P))"
    and store: "cacheStore X P w = (Inr (), w1)"
  shows "fst (resolveRepo raw w1) = Inr (Some P)
         \<and> console (snd (resolveRepo raw w1)) = console w1 @ [Resolving X, CacheHit X P]"
proof -
  let ?e = "\<lparr>path = P, lastUsed = clock w\<rparr>"
  from store obtain c0 where c0: "loadCache w = Some c0"
    by (cases "loadCache w") (simp_all add: cacheStore_def)
  let ?c = "c0(X \<mapsto> ?e)"
  let ?w = "consoleLog (Resolving X) w1"
  from store c0 url(3) have w1: "cacheWritable w" "w1 = w\<lparr>cacheFile := Content ?c\<rparr>"
    by (auto simp: cacheStore_def saveCache_def split: if_splits)
  have same: "sameFiles ?w w"
    using sameFiles_trans [OF sameFiles_consoleLog sameFiles_cacheStore [OF store]] .
  have c: "loadCache ?w = Some ?c" by (simp add: w1(2) loadCache_def consoleLog_def)
  have ex: "existsSync ?w P" using dir sameFiles_existsSync [OF same] by simp
  have rem: "Some X \<in> set (map normalizeRepoUrl (getRepoRemotes ?w P))"
    using remote sameFiles_remotes [OF same] by simp
  have wr: "cacheWritable ?w" using w1(1) same by (simp add: sameFiles_def)
  have look: "cacheLookup X ?w
              = (Inr (Some P), consoleLog (CacheHit X P)
                   (?w\<lparr>cacheFile := Content (?c(X \<mapsto> ?e\<lparr>lastUsed := clock ?w\<rparr>))\<rparr>))"
    using ex rem wr by (simp add: cacheLookup_def c saveCache_def)
  from dir have "P \<noteq> []" by (simp add: existsSync_def)
  then have "truthy (Some P)" by (simp add: truthy_def)
  then have "resolveRepo raw w1
             = (Inr (Some P), consoleLog (CacheHit X P)
                  (?w\<lparr>cacheFile := Content (?c(X \<mapsto> ?e\<lparr>lastUsed := clock ?w\<rparr>))\<rparr>))"
    using url by (simp add: resolveRepo_def look)
  then show ?thesis by (simp add: consoleLog_def)
qed










text \<open>
  An identifier that is a property name of \<open>Object.prototype\<close> is looked up as if it had a
  stale entry, so the lookup writes the cache file; when the file cannot be written, the
  exception of the write leaves \<open>resolveRepo\<close>, although the cache has no entry for the
  identifier.
\<close>

lemma inherited_key_write_surfaces:
  "''constructor'' \<in> objectPrototypeKeys
   \<and> staleCache ''constructor'' = None
   \<and> fst (resolveRepo ''constructor'' lockedWorld) = Inl WriteFailed"
proof (intro conjI)
  show "''constructor'' \<in> objectPrototypeKeys" by (simp add: objectPrototypeKeys_def)
  show "staleCache ''constructor'' = None" by (simp add: staleCache_def)
  show "fst (resolveRepo ''constructor'' lockedWorld) = Inl WriteFailed" by code_simp
qed

text \<open>
  C10. A configured depth of 0 is replaced by 4. With \<open>GIT_SEARCH_MAX_DEPTH\<close> set to 0 and
  a cache miss, the line that \<open>resolveRepo\<close> prints before the scan names the depth 4, what
  it prints next and what it returns are the outcome of the scan with depth 4 (\<open>Found\<close> and
  the path, or \<open>Not found\<close> and \<open>null\<close>; the path is then stored, which raises when the cache
  file cannot be written).
\<close>

theorem zero_depth_replaced:
  assumes cfg: "configFile w = Content cfg" "GIT_SEARCH_MAX_DEPTH cfg = Some 0"
    and url: "normalizeRepoUrl raw = Some X" "X \<noteq> []"
    and miss: "cacheLookup X (consoleLog (Resolving X) w) = (Inr None, w2)"
  shows "console (snd (resolveRepo raw w))
           = console w2 @ [Scanning (searchPathsOf cfg) 4,
                           (case scanForRepo w X (searchPathsOf cfg) 4 of
                              None \<Rightarrow> NotFound X | Some p \<Rightarrow> Found p)]
         \<and> fst (resolveRepo raw w)
           = (if scanForRepo w X (searchPathsOf cfg) 4 \<noteq> None \<and> \<not> cacheWritable w
              then Inl WriteFailed else Inr (scanForRepo w X (searchPathsOf cfg) 4))"
proof -
  have same: "sameFiles w2 w"
    using sameFiles_trans [OF sameFiles_cacheLookup [OF miss] sameFiles_consoleLog] .
  have c2: "loadConfig w2 = Some cfg"
    using sameFiles_config [OF same] cfg(1) by (simp add: loadConfig_def)
  from cacheLookup_returns [OF miss] obtain c where c: "loadCache w2 = Some c" by blast
  have d: "maxDepthOf cfg = 4" using cfg(2) by (simp add: maxDepthOf_def)
  let ?paths = "searchPathsOf cfg"
  let ?w3 = "consoleLog (Scanning ?paths 4) w2"
  have "sameFiles ?w3 w" using sameFiles_trans [OF sameFiles_consoleLog same] .
  then have scan: "scanForRepo ?w3 X ?paths 4 = scanForRepo w X ?paths 4"
    by (rule sameFiles_scan)
  have wr: "cacheWritable w2 = cacheWritable w" using same by (simp add: sameFiles_def)
  have res: "resolveRepo raw w = resolveByScan X w2"
    using url by (simp add: resolveRepo_def miss truthy_def)
  have rs: "resolveByScan X w2
            = (case scanForRepo ?w3 X ?paths 4 of
                 None \<Rightarrow> (Inr None, consoleLog (NotFound X) ?w3)
               | Some found \<Rightarrow>
                   if found = [] then (Inr None, consoleLog (NotFound X) ?w3)
                   else (case cacheStore X found (consoleLog (Found found) ?w3) of
                           (Inl e, w4) \<Rightarrow> (Inl e, w4)
                         | (Inr _, w4) \<Rightarrow> (Inr (Some found), w4)))"
    by (simp add: resolveByScan_def c2 d Let_def)
  show ?thesis
  proof (cases "scanForRepo w X ?paths 4")
    case None
    then have "resolveRepo raw w = (Inr None, consoleLog (NotFound X) ?w3)"
      by (simp add: res rs scan)
    with None show ?thesis by (simp add: consoleLog_def)
  next
    case (Some p)
    let ?w4 = "consoleLog (Found p) ?w3"
    from scanForRepo_nonempty [OF Some] have "p \<noteq> []" .
    with Some have r: "resolveRepo raw w
                    = (case cacheStore X p ?w4 of
                         (Inl e, w4) \<Rightarrow> (Inl e, w4)
                       | (Inr _, w4) \<Rightarrow> (Inr (Some p), w4))"
      by (simp add: res rs scan)
    have c4: "loadCache ?w4 = Some c" using c by (simp add: loadCache_def consoleLog_def)
    have w4: "cacheWritable ?w4 = cacheWritable w" using wr by (simp add: consoleLog_def)
    have con: "console ?w4 = console w2 @ [Scanning ?paths 4, Found p]"
      by (simp add: consoleLog_def)
    show ?thesis
    proof (cases "cacheWritable w")
      case True
      then have "cacheStore X p ?w4
                 = (Inr (), ?w4\<lparr>cacheFile := Content
                      (if X = ''__proto__'' \<and> c X = None then c
                       else c(X \<mapsto> \<lparr>path = p, lastUsed = clock ?w4\<rparr>))\<rparr>)"
        using w4 by (simp add: cacheStore_def c4 saveCache_def)
      with r have "resolveRepo raw w
                 = (Inr (Some p), ?w4\<lparr>cacheFile := Content
                      (if X = ''__proto__'' \<and> c X = None then c
                       else c(X \<mapsto> \<lparr>path = p, lastUsed = clock ?w4\<rparr>))\<rparr>)"
        by simp
      with Some True con show ?thesis by simp
    next
      case False
      then have "\<not> cacheWritable ?w4" using w4 by simp
      from cacheStore_locked [OF this c4] r
      have "resolveRepo raw w = (Inl WriteFailed, ?w4)" by simp
      with Some False con show ?thesis by simp
    qed
  qed
qed

text \<open>
  A checkout three descents below the default root: a scan with depth 0 misses it, and
  \<open>resolveRepo\<close> with the configured depth 0 finds it.
\<close>

theorem zero_depth_replaced_witness:
  "configFile zeroDepthWorld = Content \<lparr>GIT_SEARCH_PATHS = None, GIT_SEARCH_MAX_DEPTH = Some 0\<rparr>
   \<and> normalizeRepoUrl ''git@github.com:Org/my-repo.git'' = Some ''github.com/org/my-repo''
   \<and> scanForRepo zeroDepthWorld ''github.com/org/my-repo'' [''~/dd''] 0 = None
   \<and> scanForRepo zeroDepthWorld ''github.com/org/my-repo'' [''~/dd''] 4
       = Some ''/home/u/dd/a/b/my-repo''
   \<and> fst (resolveRepo ''git@github.com:Org/my-repo.git'' zeroDepthWorld)
       = Inr (Some ''/home/u/dd/a/b/my-repo'')
   \<and> console (snd (resolveRepo ''git@github.com:Org/my-repo.git'' zeroDepthWorld))
       = [Resolving ''github.com/org/my-repo'', Scanning [''~/dd''] 4,
          Found ''/home/u/dd/a/b/my-repo'']"
proof -
  let ?X = "''github.com/org/my-repo''"
  let ?raw = "''git@github.com:Org/my-repo.git''"
  let ?cfg = "\<lparr>GIT_SEARCH_PATHS = None, GIT_SEARCH_MAX_DEPTH = Some 0\<rparr>"
  let ?w1 = "consoleLog (Resolving ?X) zeroDepthWorld"
  have h1: "configFile zeroDepthWorld = Content ?cfg"
    by (simp add: zeroDepthWorld_def emptyWorld_def)
  have h2: "GIT_SEARCH_MAX_DEPTH ?cfg = Some 0" by simp
  have h3: "normalizeRepoUrl ?raw = Some ?X" by code_simp
  have ne: "?X \<noteq> []" by simp
  have lc: "loadCache ?w1 = Some Map.empty"
    by (simp add: loadCache_def consoleLog_def zeroDepthWorld_def emptyWorld_def)
  have e: "Map.empty ?X = (None :: cache_entry option)" by simp
  have k: "?X \<notin> objectPrototypeKeys" by (simp add: objectPrototypeKeys_def)
  have h4: "cacheLookup ?X ?w1 = (Inr None, ?w1)" using lc e k by (rule cacheLookup_absent)
  have paths: "searchPathsOf ?cfg = [''~/dd'']" by (simp add: searchPathsOf_def)
  have s0: "scanForRepo zeroDepthWorld ?X [''~/dd''] 0 = None" by code_simp
  have s4: "scanForRepo zeroDepthWorld ?X [''~/dd''] 4 = Some ''/home/u/dd/a/b/my-repo''"
    by code_simp
  have c: "console ?w1 = [Resolving ?X]"
    by (simp add: consoleLog_def zeroDepthWorld_def emptyWorld_def)
  have wr: "cacheWritable zeroDepthWorld" by (simp add: zeroDepthWorld_def emptyWorld_def)
  from zero_depth_replaced [OF h1 h2 h3 ne h4] wr
  have "console (snd (resolveRepo ?raw zeroDepthWorld))
          = [Resolving ?X, Scanning [''~/dd''] 4, Found ''/home/u/dd/a/b/my-repo'']"
    and "fst (resolveRepo ?raw zeroDepthWorld) = Inr (Some ''/home/u/dd/a/b/my-repo'')"
    unfolding paths s4 c by simp_all
  with h1 h3 s0 s4 show ?thesis by blast
qed

end
